theory Spec2Isabelle
  imports Main
begin

section \<open>Python values carried by events\<close>

text \<open>
  Event payloads and workflow data are \<open>Dict[str, Any]\<close>.  The values that occur are the
  JSON-compatible ones (\<open>None\<close>, booleans, integers, strings, lists, dictionaries with
  string keys) and, in \<open>AgentEventResponse.dict()\<close>, a \<open>UUID\<close> object.  A dictionary is
  kept as an association list in insertion order, as Python dictionaries iterate.
  Floating-point numbers are not part of the model.
\<close>

type_synonym uuid = string

datatype pyval =
    PNone
  | PBool bool
  | PInt int
  | PStr string
  | PList "pyval list"
  | PDict "(string \<times> pyval) list"
  | PUuid uuid

text \<open>
  The exceptions that the modelled code can raise.  \<open>OutsideModel\<close> and \<open>OutOfFuel\<close> are not
  Python exceptions.  \<open>OutsideModel\<close> is the answer where a text denotes a value that
  \<open>pyval\<close> does not have (a floating-point number, a character beyond U+00FF), so that
  the model says nothing about what the code does there.  \<open>OutOfFuel\<close> is the answer of a
  scan that has used up the bound on the number of its calls; \<open>json_loads\<close> never gives it
  (\<open>json_loads_enough_fuel\<close>).
\<close>

datatype py_error =
    KeyError | ValueError | TypeError | JSONDecodeError | RecursionError
  | OutsideModel | OutOfFuel

section \<open>The standard library's JSON codec\<close>

text \<open>
  \<open>json.dumps\<close> and \<open>json.loads\<close> with their default arguments, for the values of
  \<open>pyval\<close>.  A Python string is a \<open>string\<close> here, so its characters are the code points
  up to U+00FF.  \<open>json.dumps\<close> writes items separated by a comma and a space, keys and
  values separated by a colon and a space, and escapes every character outside the
  printable ASCII range.
\<close>

definition dquote :: char where "dquote = CHR 0x22"
definition bslash :: char where "bslash = CHR 0x5C"

definition hex_digit :: "nat \<Rightarrow> char" where
  "hex_digit n = (if n < 10 then char_of (48 + n) else char_of (87 + n))"

definition escape_char :: "char \<Rightarrow> string" where
  "escape_char c =
     (if c = bslash then [bslash, bslash]
      else if c = dquote then [bslash, dquote]
      else if c = CHR 0x08 then [bslash, CHR ''b'']
      else if c = CHR 0x0C then [bslash, CHR ''f'']
      else if c = CHR 0x0A then [bslash, CHR ''n'']
      else if c = CHR 0x0D then [bslash, CHR ''r'']
      else if c = CHR 0x09 then [bslash, CHR ''t'']
      else if 32 \<le> (of_char c :: nat) \<and> (of_char c :: nat) \<le> 126 then [c]
      else [bslash, CHR ''u'', CHR ''0'', CHR ''0'',
            hex_digit ((of_char c :: nat) div 16), hex_digit ((of_char c :: nat) mod 16)])"

definition encode_basestring :: "string \<Rightarrow> string" where
  "encode_basestring s = dquote # concat (map escape_char s) @ [dquote]"

fun str_nat :: "nat \<Rightarrow> string" where
  "str_nat n = (if n < 10 then [char_of (48 + n)] else str_nat (n div 10) @ [char_of (48 + n mod 10)])"

declare str_nat.simps [simp del]

definition str_int :: "int \<Rightarrow> string" where
  "str_int i = (if i < 0 then CHR ''-'' # str_nat (nat (- i)) else str_nat (nat i))"


fun encode :: "pyval \<Rightarrow> string"
  and encode_items :: "pyval list \<Rightarrow> string"
  and encode_pairs :: "(string \<times> pyval) list \<Rightarrow> string" where
  "encode PNone = ''null''"
| "encode (PBool b) = (if b then ''true'' else ''false'')"
| "encode (PInt i) = str_int i"
| "encode (PStr s) = encode_basestring s"
| "encode (PList xs) = ''['' @ encode_items xs @ '']''"
| "encode (PDict kvs) = ''{'' @ encode_pairs kvs @ ''}''"
| "encode (PUuid u) = []"
| "encode_items [] = []"
| "encode_items (x # xs) = encode x @ (if xs = [] then [] else '', '' @ encode_items xs)"
| "encode_pairs [] = []"
| "encode_pairs ((k, v) # kvs) =
     encode_basestring k @ '': '' @ encode v @ (if kvs = [] then [] else '', '' @ encode_pairs kvs)"

text \<open>
  The interpreter's limits.  A call that nests deeper than the recursion limit allows
  raises \<open>RecursionError\<close>.  How many nested lists and dictionaries that leaves to
  \<open>dataclasses.asdict\<close>, to \<open>json.dumps\<close> and to \<open>json.loads\<close> depends on the interpreter's
  setting and on the stack in use at the call, so the three depths are parameters.
  \<open>max_str_digits\<close> is \<open>sys.get_int_max_str_digits()\<close>: an integer with more decimal digits
  is neither written nor read (\<open>ValueError\<close>), and \<open>0\<close> switches the limit off.
\<close>

record limits =
  asdict_depth :: nat
  dumps_depth :: nat
  loads_depth :: nat
  max_str_digits :: nat

definition digits_ok :: "limits \<Rightarrow> int \<Rightarrow> bool" where
  "digits_ok L i = (max_str_digits L = 0 \<or> length (str_nat (nat \<bar>i\<bar>)) \<le> max_str_digits L)"


text \<open>
  \<open>json.dumps\<close> writes a value from left to right and raises at the first part that it
  cannot write: \<open>TypeError\<close> at a \<open>UUID\<close> object, \<open>ValueError\<close> at an integer with too
  many digits, \<open>RecursionError\<close> on entering a list or dictionary that lies too deep.
  The second argument of \<open>dumps_error\<close> is the depth that is left.
\<close>

fun dumps_error :: "limits \<Rightarrow> nat \<Rightarrow> pyval \<Rightarrow> py_error option"
  and dumps_error_items :: "limits \<Rightarrow> nat \<Rightarrow> pyval list \<Rightarrow> py_error option"
  and dumps_error_pairs :: "limits \<Rightarrow> nat \<Rightarrow> (string \<times> pyval) list \<Rightarrow> py_error option" where
  "dumps_error L d PNone = None"
| "dumps_error L d (PBool b) = None"
| "dumps_error L d (PInt i) = (if digits_ok L i then None else Some ValueError)"
| "dumps_error L d (PStr s) = None"
| "dumps_error L d (PList xs) =
     (if d = 0 then Some RecursionError else dumps_error_items L (d - 1) xs)"
| "dumps_error L d (PDict kvs) =
     (if d = 0 then Some RecursionError else dumps_error_pairs L (d - 1) kvs)"
| "dumps_error L d (PUuid u) = Some TypeError"
| "dumps_error_items L d [] = None"
| "dumps_error_items L d (x # xs) =
     (case dumps_error L d x of Some err \<Rightarrow> Some err | None \<Rightarrow> dumps_error_items L d xs)"
| "dumps_error_pairs L d [] = None"
| "dumps_error_pairs L d ((k, v) # kvs) =
     (case dumps_error L d v of Some err \<Rightarrow> Some err | None \<Rightarrow> dumps_error_pairs L d kvs)"

definition json_dumps :: "limits \<Rightarrow> pyval \<Rightarrow> py_error + string" where
  "json_dumps L v =
     (case dumps_error L (dumps_depth L) v of Some err \<Rightarrow> Inl err | None \<Rightarrow> Inr (encode v))"

text \<open>
  The decoder follows \<open>json.decoder\<close> and \<open>json.scanner\<close>.  A scan answers with the value
  and the rest of the text.
\<close>

type_synonym 'a scan = "py_error + ('a \<times> string)"

definition is_ws :: "char \<Rightarrow> bool" where
  "is_ws c = (c = CHR '' '' \<or> c = CHR 0x09 \<or> c = CHR 0x0A \<or> c = CHR 0x0D)"

definition skip_ws :: "string \<Rightarrow> string" where
  "skip_ws cs = dropWhile is_ws cs"

definition is_digit :: "char \<Rightarrow> bool" where
  "is_digit c = (48 \<le> (of_char c :: nat) \<and> (of_char c :: nat) \<le> 57)"

definition digit_val :: "char \<Rightarrow> nat" where
  "digit_val c = of_char c - 48"

definition nat_of_digits :: "string \<Rightarrow> nat" where
  "nat_of_digits ds = foldl (\<lambda>a d. 10 * a + digit_val d) 0 ds"

definition hex_val :: "char \<Rightarrow> nat option" where
  "hex_val c =
     (let n = (of_char c :: nat)
      in if 48 \<le> n \<and> n \<le> 57 then Some (n - 48)
         else if 97 \<le> n \<and> n \<le> 102 then Some (n - 87)
         else if 65 \<le> n \<and> n \<le> 70 then Some (n - 55)
         else None)"

text \<open>\<open>_decode_uXXXX\<close>: the four characters after \<open>\u\<close> must be hexadecimal digits.\<close>

definition decode_uXXXX :: "string \<Rightarrow> nat option" where
  "decode_uXXXX cs =
     (case map hex_val (take 4 cs) of
        [Some a, Some b, Some c, Some d] \<Rightarrow> Some (((a * 16 + b) * 16 + c) * 16 + d)
      | _ \<Rightarrow> None)"

definition unescape :: "char \<Rightarrow> char option" where
  "unescape e =
     (if e = dquote then Some dquote
      else if e = bslash then Some bslash
      else if e = CHR ''/'' then Some (CHR ''/'')
      else if e = CHR ''b'' then Some (CHR 0x08)
      else if e = CHR ''f'' then Some (CHR 0x0C)
      else if e = CHR ''n'' then Some (CHR 0x0A)
      else if e = CHR ''r'' then Some (CHR 0x0D)
      else if e = CHR ''t'' then Some (CHR 0x09)
      else None)"

text \<open>
  \<open>scanstring\<close>, entered after the opening quote: it ends at the closing quote, and fails
  on a text that ends before it, on a raw control character and on a wrong escape.
\<close>

fun scanstring :: "string \<Rightarrow> string scan" where
  "scanstring [] = Inl JSONDecodeError"
| "scanstring (c # cs) =
     (if c = dquote then Inr ([], cs)
      else if c = bslash then
        (case cs of
           [] \<Rightarrow> Inl JSONDecodeError
         | e # cs' \<Rightarrow>
             if e = CHR ''u'' then
               (case decode_uXXXX cs' of
                  None \<Rightarrow> Inl JSONDecodeError
                | Some uni \<Rightarrow>
                    if uni < 256 then
                      (case scanstring (drop 4 cs') of
                         Inl err \<Rightarrow> Inl err
                       | Inr (s, r) \<Rightarrow> Inr (char_of uni # s, r))
                    else Inl OutsideModel)
             else
               (case unescape e of
                  None \<Rightarrow> Inl JSONDecodeError
                | Some ch \<Rightarrow>
                    (case scanstring cs' of
                       Inl err \<Rightarrow> Inl err
                     | Inr (s, r) \<Rightarrow> Inr (ch # s, r))))
      else if (of_char c :: nat) < 32 then Inl JSONDecodeError
      else
        (case scanstring cs of
           Inl err \<Rightarrow> Inl err
         | Inr (s, r) \<Rightarrow> Inr (c # s, r)))"

declare scanstring.simps [simp del]

text \<open>
  \<open>NUMBER_RE\<close>: an optional minus sign, then \<open>0\<close> or a digit sequence that does not start
  with \<open>0\<close>, then an optional fraction and an optional exponent.  A match with a fraction
  or an exponent is a floating-point number.
\<close>

datatype number_match = NoNumber | IntNumber int string | FloatNumber

definition has_frac :: "string \<Rightarrow> bool" where
  "has_frac cs = (case cs of c # d # _ \<Rightarrow> c = CHR ''.'' \<and> is_digit d | _ \<Rightarrow> False)"

definition has_exp :: "string \<Rightarrow> bool" where
  "has_exp cs =
     (case cs of
        e # s # r \<Rightarrow>
          (e = CHR ''e'' \<or> e = CHR ''E'') \<and>
          (if s = CHR ''+'' \<or> s = CHR ''-'' then (case r of d # _ \<Rightarrow> is_digit d | [] \<Rightarrow> False)
           else is_digit s)
      | _ \<Rightarrow> False)"

definition match_digits :: "bool \<Rightarrow> string \<Rightarrow> number_match" where
  "match_digits neg ds =
     (case ds of
        [] \<Rightarrow> NoNumber
      | d # r \<Rightarrow>
          if \<not> is_digit d then NoNumber
          else
            (let digs = (if d = CHR ''0'' then [d] else takeWhile is_digit ds);
                 rest = (if d = CHR ''0'' then r else dropWhile is_digit ds)
             in if has_frac rest \<or> has_exp rest then FloatNumber
                else IntNumber (if neg then - int (nat_of_digits digs) else int (nat_of_digits digs))
                       rest))"

definition match_number :: "string \<Rightarrow> number_match" where
  "match_number cs =
     (case cs of
        [] \<Rightarrow> NoNumber
      | c # r \<Rightarrow> if c = CHR ''-'' then match_digits True r else match_digits False cs)"

text \<open>\<open>dict(pairs)\<close>: a key that comes again replaces the value and keeps its place.\<close>

definition dict_set :: "(string \<times> pyval) list \<Rightarrow> string \<Rightarrow> pyval \<Rightarrow> (string \<times> pyval) list" where
  "dict_set kvs k v =
     (if k \<in> fst ` set kvs then map (\<lambda>(k', v'). if k' = k then (k', v) else (k', v')) kvs
      else kvs @ [(k, v)])"

definition dict_of_pairs :: "(string \<times> pyval) list \<Rightarrow> (string \<times> pyval) list" where
  "dict_of_pairs pairs = foldl (\<lambda>d (k, v). dict_set d k v) [] pairs"

text \<open>
  \<open>scan_once\<close> with \<open>JSONArray\<close> and \<open>JSONObject\<close>.  The argument \<open>d\<close> is the depth that is
  left: \<open>scan_once\<close> raises \<open>RecursionError\<close> on entering an array or object when none is
  left, and the items of an array or object are scanned with one less.  An integer with
  too many digits is a \<open>ValueError\<close>.  The argument \<open>n\<close> bounds the number of calls of the
  three functions, so that they are total; \<open>json_loads\<close> starts with a bound that no text
  reaches.
  \<open>parse_array\<close> is entered at the first item of a non-empty array, \<open>parse_object\<close> after
  the opening quote of a key.
\<close>

fun scan_once :: "limits \<Rightarrow> nat \<Rightarrow> nat \<Rightarrow> string \<Rightarrow> pyval scan"
  and parse_array :: "limits \<Rightarrow> nat \<Rightarrow> nat \<Rightarrow> string \<Rightarrow> (pyval list) scan"
  and parse_object :: "limits \<Rightarrow> nat \<Rightarrow> nat \<Rightarrow> string \<Rightarrow> ((string \<times> pyval) list) scan" where
  "scan_once L 0 d cs = Inl OutOfFuel"
| "scan_once L (Suc n) d cs =
     (case cs of
        [] \<Rightarrow> Inl JSONDecodeError
      | c # rest \<Rightarrow>
          if c = dquote then
            (case scanstring rest of Inl err \<Rightarrow> Inl err | Inr (s, r) \<Rightarrow> Inr (PStr s, r))
          else if c = CHR ''{'' then
            (if d = 0 then Inl RecursionError
             else
               (case skip_ws rest of
                  [] \<Rightarrow> Inl JSONDecodeError
                | q # r \<Rightarrow>
                    if q = CHR ''}'' then Inr (PDict [], r)
                    else if q = dquote then
                      (case parse_object L n (d - 1) r of
                         Inl err \<Rightarrow> Inl err
                       | Inr (pairs, r') \<Rightarrow> Inr (PDict (dict_of_pairs pairs), r'))
                    else Inl JSONDecodeError))
          else if c = CHR ''['' then
            (if d = 0 then Inl RecursionError
             else
               (case skip_ws rest of
                  [] \<Rightarrow> Inl JSONDecodeError
                | q # r \<Rightarrow>
                    if q = CHR '']'' then Inr (PList [], r)
                    else
                      (case parse_array L n (d - 1) (q # r) of
                         Inl err \<Rightarrow> Inl err
                       | Inr (vs, r') \<Rightarrow> Inr (PList vs, r'))))
          else if take 4 cs = ''null'' then Inr (PNone, drop 4 cs)
          else if take 4 cs = ''true'' then Inr (PBool True, drop 4 cs)
          else if take 5 cs = ''false'' then Inr (PBool False, drop 5 cs)
          else
            (case match_number cs of
               IntNumber i r \<Rightarrow> if digits_ok L i then Inr (PInt i, r) else Inl ValueError
             | FloatNumber \<Rightarrow> Inl OutsideModel
             | NoNumber \<Rightarrow>
                 if take 3 cs = ''NaN'' \<or> take 8 cs = ''Infinity'' \<or> take 9 cs = ''-Infinity''
                 then Inl OutsideModel
                 else Inl JSONDecodeError))"
| "parse_array L 0 d cs = Inl OutOfFuel"
| "parse_array L (Suc n) d cs =
     (case scan_once L n d cs of
        Inl err \<Rightarrow> Inl err
      | Inr (v, r) \<Rightarrow>
          (case skip_ws r of
             [] \<Rightarrow> Inl JSONDecodeError
           | q # r' \<Rightarrow>
               if q = CHR '']'' then Inr ([v], r')
               else if q = CHR '','' then
                 (case parse_array L n d (skip_ws r') of
                    Inl err \<Rightarrow> Inl err
                  | Inr (vs, r'') \<Rightarrow> Inr (v # vs, r''))
               else Inl JSONDecodeError))"
| "parse_object L 0 d cs = Inl OutOfFuel"
| "parse_object L (Suc n) d cs =
     (case scanstring cs of
        Inl err \<Rightarrow> Inl err
      | Inr (key, r) \<Rightarrow>
          (case skip_ws r of
             [] \<Rightarrow> Inl JSONDecodeError
           | c # r1 \<Rightarrow>
               if c \<noteq> CHR '':'' then Inl JSONDecodeError
               else
                 (case scan_once L n d (skip_ws r1) of
                    Inl err \<Rightarrow> Inl err
                  | Inr (v, r2) \<Rightarrow>
                      (case skip_ws r2 of
                         [] \<Rightarrow> Inl JSONDecodeError
                       | p # r3 \<Rightarrow>
                           if p = CHR ''}'' then Inr ([(key, v)], r3)
                           else if p = CHR '','' then
                             (case skip_ws r3 of
                                [] \<Rightarrow> Inl JSONDecodeError
                              | q # r4 \<Rightarrow>
                                  if q \<noteq> dquote then Inl JSONDecodeError
                                  else
                                    (case parse_object L n d r4 of
                                       Inl err \<Rightarrow> Inl err
                                     | Inr (pairs, r5) \<Rightarrow> Inr ((key, v) # pairs, r5)))
                           else Inl JSONDecodeError))))"

text \<open>
  \<open>json.loads\<close>: leading white space is skipped, one value is scanned, and anything but
  white space behind it is an error.
\<close>

definition json_loads :: "limits \<Rightarrow> string \<Rightarrow> py_error + pyval" where
  "json_loads L s =
     (case scan_once L (2 * length s + 2) (loads_depth L) (skip_ws s) of
        Inl err \<Rightarrow> Inl err
      | Inr (v, r) \<Rightarrow> if skip_ws r = [] then Inr v else Inl JSONDecodeError)"

section \<open>Values that JSON can carry\<close>




text \<open>
  For the proofs: the characters that can follow a value inside a list or a dictionary,
  the characters a value's text can start with, and the number of nested scanner calls a
  value needs.
\<close>

definition delimited :: "string \<Rightarrow> bool" where
  "delimited rest =
     (case rest of [] \<Rightarrow> True | c # _ \<Rightarrow> c = CHR '','' \<or> c = CHR '']'' \<or> c = CHR ''}'')"



section \<open>citadel\_frontend/protocol/ag\_ui.py\<close>

datatype EventType =
    RUN_STARTED | RUN_FINISHED
  | TEXT_MESSAGE_START | TEXT_MESSAGE_CONTENT | TEXT_MESSAGE_END
  | TOOL_CALL_START | TOOL_CALL_ARGS | TOOL_CALL_END
  | STATE_SNAPSHOT | STATE_DELTA | MESSAGES_SNAPSHOT
  | ERROR | STATUS_UPDATE
  | THINKING_START | THINKING_END | AGENT_CHANGE

text \<open>\<open>EventType.value\<close>: the string of each member.\<close>

fun EventType_value :: "EventType \<Rightarrow> string" where
  "EventType_value RUN_STARTED = ''RUN_STARTED''"
| "EventType_value RUN_FINISHED = ''RUN_FINISHED''"
| "EventType_value TEXT_MESSAGE_START = ''TEXT_MESSAGE_START''"
| "EventType_value TEXT_MESSAGE_CONTENT = ''TEXT_MESSAGE_CONTENT''"
| "EventType_value TEXT_MESSAGE_END = ''TEXT_MESSAGE_END''"
| "EventType_value TOOL_CALL_START = ''TOOL_CALL_START''"
| "EventType_value TOOL_CALL_ARGS = ''TOOL_CALL_ARGS''"
| "EventType_value TOOL_CALL_END = ''TOOL_CALL_END''"
| "EventType_value STATE_SNAPSHOT = ''STATE_SNAPSHOT''"
| "EventType_value STATE_DELTA = ''STATE_DELTA''"
| "EventType_value MESSAGES_SNAPSHOT = ''MESSAGES_SNAPSHOT''"
| "EventType_value ERROR = ''ERROR''"
| "EventType_value STATUS_UPDATE = ''STATUS_UPDATE''"
| "EventType_value THINKING_START = ''THINKING_START''"
| "EventType_value THINKING_END = ''THINKING_END''"
| "EventType_value AGENT_CHANGE = ''AGENT_CHANGE''"

definition EventType_members :: "EventType list" where
  "EventType_members =
     [RUN_STARTED, RUN_FINISHED, TEXT_MESSAGE_START, TEXT_MESSAGE_CONTENT, TEXT_MESSAGE_END,
      TOOL_CALL_START, TOOL_CALL_ARGS, TOOL_CALL_END, STATE_SNAPSHOT, STATE_DELTA,
      MESSAGES_SNAPSHOT, ERROR, STATUS_UPDATE, THINKING_START, THINKING_END, AGENT_CHANGE]"

text \<open>
  \<open>EventType(v)\<close>: the member whose value is \<open>v\<close>; \<open>ValueError\<close> when there is none
  (also when \<open>v\<close> is not a string).
\<close>

fun EventType_of :: "pyval \<Rightarrow> py_error + EventType" where
  "EventType_of (PStr s) =
     (case find (\<lambda>t. EventType_value t = s) EventType_members of
        Some t \<Rightarrow> Inr t
      | None \<Rightarrow> Inl ValueError)"
| "EventType_of _ = Inl ValueError"

text \<open>
  \<open>BaseEvent\<close> is a dataclass with the fields \<open>type\<close> and \<open>payload\<close>, and the module has
  eleven dataclasses that inherit from it.  An event object is of one of these classes;
  the field \<open>event_class\<close> says of which.  The constructor does not check the payload, so
  the field holds whatever value it is given.
\<close>

datatype event_class =
    C_BaseEvent
  | C_RunStartedEvent | C_RunFinishedEvent
  | C_TextMessageStartEvent | C_TextMessageContentEvent | C_TextMessageEndEvent
  | C_ToolCallStartEvent | C_ToolCallArgsEvent | C_ToolCallEndEvent
  | C_StateSnapshotEvent | C_StateDeltaEvent
  | C_ErrorEvent

record BaseEvent =
  event_class :: event_class
  etype :: EventType
  payload :: pyval


text \<open>
  \<open>BaseEvent(type=t, payload=p)\<close> is the record with \<open>event_class = C_BaseEvent\<close>.  The
  constructors of the subclasses fix the type and build the payload.
\<close>

definition RunStartedEvent :: "string \<Rightarrow> BaseEvent" where
  "RunStartedEvent run_id =
     \<lparr>event_class = C_RunStartedEvent, etype = RUN_STARTED,
      payload = PDict [(''runId'', PStr run_id)]\<rparr>"

definition RunFinishedEvent :: "string \<Rightarrow> BaseEvent" where
  "RunFinishedEvent run_id =
     \<lparr>event_class = C_RunFinishedEvent, etype = RUN_FINISHED,
      payload = PDict [(''runId'', PStr run_id)]\<rparr>"

definition TextMessageStartEvent :: "string \<Rightarrow> string \<Rightarrow> BaseEvent" where
  "TextMessageStartEvent message_id sender =
     \<lparr>event_class = C_TextMessageStartEvent, etype = TEXT_MESSAGE_START,
      payload = PDict [(''messageId'', PStr message_id), (''sender'', PStr sender)]\<rparr>"

definition TextMessageContentEvent :: "string \<Rightarrow> string \<Rightarrow> BaseEvent" where
  "TextMessageContentEvent message_id content =
     \<lparr>event_class = C_TextMessageContentEvent, etype = TEXT_MESSAGE_CONTENT,
      payload = PDict [(''messageId'', PStr message_id), (''content'', PStr content)]\<rparr>"

definition TextMessageEndEvent :: "string \<Rightarrow> BaseEvent" where
  "TextMessageEndEvent message_id =
     \<lparr>event_class = C_TextMessageEndEvent, etype = TEXT_MESSAGE_END,
      payload = PDict [(''messageId'', PStr message_id)]\<rparr>"

definition ToolCallStartEvent :: "string \<Rightarrow> string \<Rightarrow> BaseEvent" where
  "ToolCallStartEvent tool_call_id tool =
     \<lparr>event_class = C_ToolCallStartEvent, etype = TOOL_CALL_START,
      payload = PDict [(''toolCallId'', PStr tool_call_id), (''tool'', PStr tool)]\<rparr>"

definition ToolCallArgsEvent :: "string \<Rightarrow> pyval \<Rightarrow> BaseEvent" where
  "ToolCallArgsEvent tool_call_id args =
     \<lparr>event_class = C_ToolCallArgsEvent, etype = TOOL_CALL_ARGS,
      payload = PDict [(''toolCallId'', PStr tool_call_id), (''args'', args)]\<rparr>"

definition ToolCallEndEvent :: "string \<Rightarrow> pyval \<Rightarrow> BaseEvent" where
  "ToolCallEndEvent tool_call_id result =
     \<lparr>event_class = C_ToolCallEndEvent, etype = TOOL_CALL_END,
      payload = PDict [(''toolCallId'', PStr tool_call_id), (''result'', result)]\<rparr>"

definition StateSnapshotEvent :: "pyval \<Rightarrow> BaseEvent" where
  "StateSnapshotEvent state =
     \<lparr>event_class = C_StateSnapshotEvent, etype = STATE_SNAPSHOT,
      payload = PDict [(''state'', state)]\<rparr>"


text \<open>
  \<open>ErrorEvent\<close> adds the key \<open>details\<close> only when the argument is truthy: not \<open>None\<close>, not
  \<open>False\<close>, not zero and not empty.
\<close>

fun truthy :: "pyval \<Rightarrow> bool" where
  "truthy PNone = False"
| "truthy (PBool b) = b"
| "truthy (PInt i) = (i \<noteq> 0)"
| "truthy (PStr s) = (s \<noteq> [])"
| "truthy (PList xs) = (xs \<noteq> [])"
| "truthy (PDict kvs) = (kvs \<noteq> [])"
| "truthy (PUuid u) = True"

definition ErrorEvent :: "string \<Rightarrow> string \<Rightarrow> pyval \<Rightarrow> BaseEvent" where
  "ErrorEvent error_code message details =
     \<lparr>event_class = C_ErrorEvent, etype = ERROR,
      payload = PDict ([(''errorCode'', PStr error_code), (''message'', PStr message)]
                       @ (if truthy details then [(''details'', details)] else []))\<rparr>"

text \<open>\<open>d[k]\<close> and \<open>d.get(k, default)\<close> on a Python value.\<close>

fun py_getitem :: "pyval \<Rightarrow> string \<Rightarrow> py_error + pyval" where
  "py_getitem (PDict kvs) k = (case map_of kvs k of Some v \<Rightarrow> Inr v | None \<Rightarrow> Inl KeyError)"
| "py_getitem _ k = Inl TypeError"

definition dict_get :: "(string \<times> pyval) list \<Rightarrow> string \<Rightarrow> pyval \<Rightarrow> pyval" where
  "dict_get kvs k dflt = (case map_of kvs k of Some v \<Rightarrow> v | None \<Rightarrow> dflt)"


text \<open>
  \<open>from_dict\<close> and \<open>from_json\<close> are class methods; the code calls them on \<open>BaseEvent\<close>, and so
  they are modelled: the object they build is of the class \<open>BaseEvent\<close>.
  \<open>from_dict\<close> indexes \<open>data["type"]\<close> first, then reads \<open>data.get("payload", {})\<close>.
  Once the index has succeeded \<open>data\<close> is a dictionary.
\<close>

fun from_dict :: "pyval \<Rightarrow> py_error + BaseEvent" where
  "from_dict (PDict kvs) =
     (case py_getitem (PDict kvs) ''type'' of
        Inl err \<Rightarrow> Inl err
      | Inr v \<Rightarrow>
          (case EventType_of v of
             Inl err \<Rightarrow> Inl err
           | Inr t \<Rightarrow> Inr \<lparr>event_class = C_BaseEvent, etype = t,
                        payload = dict_get kvs ''payload'' (PDict [])\<rparr>))"
| "from_dict v = (case py_getitem v ''type'' of Inl err \<Rightarrow> Inl err | Inr _ \<Rightarrow> Inl TypeError)"


definition from_json :: "limits \<Rightarrow> string \<Rightarrow> py_error + BaseEvent" where
  "from_json L json_str =
     (case json_loads L json_str of Inl err \<Rightarrow> Inl err | Inr data \<Rightarrow> from_dict data)"

section \<open>citadel\_frontend/protocol/transport.py\<close>

text \<open>
  \<open>receive_events\<close> is an asynchronous generator over the frames that the connection
  delivers.  The frames that arrive before the peer ends the connection are a list; the
  result is the list of events the generator yields and, when an exception leaves the
  generator, that exception: nothing is yielded after it.  The lines of the SSE response
  are taken as decoded text.
\<close>

definition is_space :: "char \<Rightarrow> bool" where
  "is_space c =
     (let n = (of_char c :: nat)
      in (9 \<le> n \<and> n \<le> 13) \<or> (28 \<le> n \<and> n \<le> 32) \<or> n = 133 \<or> n = 160)"

definition strip :: "string \<Rightarrow> string" where
  "strip s = rev (dropWhile is_space (rev (dropWhile is_space s)))"

fun sse_receive_events :: "limits \<Rightarrow> string list \<Rightarrow> BaseEvent list \<times> py_error option" where
  "sse_receive_events L [] = ([], None)"
| "sse_receive_events L (l # ls) =
     (let line = strip l
      in if line = [] then sse_receive_events L ls
         else if take 6 line = ''data: '' then
           (case json_loads L (drop 6 line) of
              Inl JSONDecodeError \<Rightarrow> sse_receive_events L ls
            | Inl err \<Rightarrow> ([], Some err)
            | Inr event_data \<Rightarrow>
                (case from_dict event_data of
                   Inl err \<Rightarrow> ([], Some err)
                 | Inr ev \<Rightarrow>
                     (case sse_receive_events L ls of (evs, r) \<Rightarrow> (ev # evs, r))))
         else sse_receive_events L ls)"

fun ws_receive_events :: "limits \<Rightarrow> string list \<Rightarrow> BaseEvent list \<times> py_error option" where
  "ws_receive_events L [] = ([], None)"
| "ws_receive_events L (message # ms) =
     (case from_json L message of
        Inl JSONDecodeError \<Rightarrow> ws_receive_events L ms
      | Inl err \<Rightarrow> ([], Some err)
      | Inr ev \<Rightarrow> (case ws_receive_events L ms of (evs, r) \<Rightarrow> (ev # evs, r)))"

section \<open>citadel\_frontend/protocol/events.py\<close>

text \<open>
  The argument \<open>event_types\<close> of \<open>subscribe\<close> is \<open>None\<close> or a set of event types.  It is
  used as a key of the dictionary \<open>subscribers\<close>, and a dictionary hashes its keys: a
  \<open>frozenset\<close> has a hash, a \<open>set\<close> has none and the lookup raises \<open>TypeError\<close>.  The
  dictionary is kept in insertion order, the order in which \<open>publish\<close> walks it.
\<close>

datatype event_types = PyNone | PySet "EventType set" | PyFrozenset "EventType set"

record QueueEventConsumer =
  queue :: nat
  event_types :: event_types

record EventBus =
  subscribers :: "(event_types \<times> nat list) list"
  bus_items :: "nat \<Rightarrow> BaseEvent list"
  bus_next :: nat

definition new_bus :: EventBus where
  "new_bus = \<lparr>subscribers = [], bus_items = (\<lambda>_. []), bus_next = 0\<rparr>"

text \<open>\<open>event_types is None or event.type in event_types\<close>.\<close>

fun accepts :: "event_types \<Rightarrow> BaseEvent \<Rightarrow> bool" where
  "accepts PyNone ev = True"
| "accepts (PySet ts) ev = (etype ev \<in> ts)"
| "accepts (PyFrozenset ts) ev = (etype ev \<in> ts)"

fun py_hash :: "event_types \<Rightarrow> py_error option" where
  "py_hash (PySet ts) = Some TypeError"
| "py_hash _ = None"

text \<open>\<open>queue.put\<close> on each queue of a list, in order.\<close>

fun put_all :: "nat list \<Rightarrow> 'e \<Rightarrow> (nat \<Rightarrow> 'e list) \<Rightarrow> (nat \<Rightarrow> 'e list)" where
  "put_all [] ev items = items"
| "put_all (q # qs) ev items = put_all qs ev (items(q := items q @ [ev]))"

fun publish_loop ::
    "(event_types \<times> nat list) list \<Rightarrow> BaseEvent \<Rightarrow> (nat \<Rightarrow> BaseEvent list) \<Rightarrow> (nat \<Rightarrow> BaseEvent list)" where
  "publish_loop [] ev items = items"
| "publish_loop ((ts, queues) # rest) ev items =
     publish_loop rest ev (if accepts ts ev then put_all queues ev items else items)"

definition publish :: "EventBus \<Rightarrow> BaseEvent \<Rightarrow> EventBus" where
  "publish bus ev = bus\<lparr>bus_items := publish_loop (subscribers bus) ev (bus_items bus)\<rparr>"

definition subscribe :: "EventBus \<Rightarrow> event_types \<Rightarrow> (py_error + QueueEventConsumer) \<times> EventBus" where
  "subscribe bus ts =
     (let q = bus_next bus;
          bus1 = bus\<lparr>bus_next := Suc q, bus_items := (bus_items bus)(q := [])\<rparr>
      in case py_hash ts of
           Some err \<Rightarrow> (Inl err, bus1)
         | None \<Rightarrow>
             (let subs = (if ts \<in> fst ` set (subscribers bus1) then subscribers bus1
                          else subscribers bus1 @ [(ts, [])])
              in (Inr \<lparr>queue = q, event_types = ts\<rparr>,
                  bus1\<lparr>subscribers :=
                         map (\<lambda>(k, qs). if k = ts then (k, qs @ [q]) else (k, qs)) subs\<rparr>)))"

text \<open>
  \<open>unsubscribe\<close> walks the dictionary up to the first list that holds the consumer's
  queue, removes the queue from it, and deletes the key when the list has become empty.
\<close>

fun unsubscribe_loop :: "(event_types \<times> nat list) list \<Rightarrow> nat \<Rightarrow> (event_types \<times> nat list) list" where
  "unsubscribe_loop [] q = []"
| "unsubscribe_loop ((ts, queues) # rest) q =
     (if q \<in> set queues then
        (if remove1 q queues = [] then rest else (ts, remove1 q queues) # rest)
      else (ts, queues) # unsubscribe_loop rest q)"

definition unsubscribe :: "EventBus \<Rightarrow> QueueEventConsumer \<Rightarrow> EventBus" where
  "unsubscribe bus consumer =
     bus\<lparr>subscribers := unsubscribe_loop (subscribers bus) (queue consumer)\<rparr>"

text \<open>
  \<open>QueueEventConsumer.consume\<close> takes the items of its queue in order and yields those its
  own filter accepts.
\<close>

definition consume :: "QueueEventConsumer \<Rightarrow> BaseEvent list \<Rightarrow> BaseEvent list" where
  "consume consumer items = filter (accepts (event_types consumer)) items"

text \<open>A run of operations on one bus.\<close>

datatype bus_op = Publish BaseEvent | Subscribe event_types | Unsubscribe QueueEventConsumer

fun bus_step :: "EventBus \<Rightarrow> bus_op \<Rightarrow> EventBus" where
  "bus_step bus (Publish ev) = publish bus ev"
| "bus_step bus (Subscribe ts) = snd (subscribe bus ts)"
| "bus_step bus (Unsubscribe c) = unsubscribe bus c"

definition published :: "bus_op list \<Rightarrow> BaseEvent list" where
  "published ops = concat (map (\<lambda>op. case op of Publish ev \<Rightarrow> [ev] | _ \<Rightarrow> []) ops)"

text \<open>
  The dictionary has each key once, no queue stands in two places, and every queue in it
  was handed out by the counter.  \<open>registered\<close> says under which key a queue stands.
\<close>

definition bus_ok :: "EventBus \<Rightarrow> bool" where
  "bus_ok bus =
     (distinct (map fst (subscribers bus))
      \<and> distinct (concat (map snd (subscribers bus)))
      \<and> (\<forall>q \<in> set (concat (map snd (subscribers bus))). q < bus_next bus))"

definition registered :: "EventBus \<Rightarrow> nat \<Rightarrow> event_types \<Rightarrow> bool" where
  "registered bus q ts = (\<exists>qs. (ts, qs) \<in> set (subscribers bus) \<and> q \<in> set qs)"

fun releases :: "nat \<Rightarrow> bus_op \<Rightarrow> bool" where
  "releases q (Unsubscribe c) = (queue c = q)"
| "releases q _ = False"

definition deliveries :: "(event_types \<times> nat list) list \<Rightarrow> BaseEvent \<Rightarrow> nat \<Rightarrow> nat" where
  "deliveries subs ev q =
     sum_list (map (\<lambda>(ts, qs). if accepts ts ev then count_list qs q else 0) subs)"

section \<open>citadel\_api/routes/agent.py\<close>

text \<open>
  The module keeps two process-wide dictionaries, \<open>active_workflows\<close> and \<open>event_queues\<close>.
  Every \<open>asyncio.Queue()\<close> is a new object: queues are named by numbers handed out by a
  counter, and \<open>queue_items\<close> holds the content of each queue, oldest item first.  The
  queues are unbounded, so \<open>await queue.put(x)\<close> appends without suspending.  The execution
  engine (\<open>AgentWorkflow\<close>) is outside the repository: each handler is given the outcome of
  its engine call (\<open>None\<close> when the call returns, \<open>Some msg\<close> when it raises an exception
  whose text is \<open>msg\<close>), and \<open>engine_calls\<close> records the calls that were made.  The clock
  reading \<open>int(loop.time() * 1000)\<close> is the parameter \<open>now\<close>.  A \<open>UUID\<close> is kept as its
  string form.  A handler runs as one step; other tasks run between handlers.
\<close>

type_synonym qid = nat

record wf_event =
  ev_workflow_id :: string
  ev_event_type :: string
  ev_timestamp :: int
  ev_data :: pyval

record workflow_data =
  wf_status :: string
  wf_config :: pyval
  wf_input :: pyval
  wf_result :: "pyval option"
  wf_error :: "string option"

datatype engine_call =
    Arun pyval
  | SubmitAction string pyval
  | SubmitFeedback string pyval
  | Cancel

record api_state =
  active_workflows :: "uuid \<rightharpoonup> workflow_data"
  event_queues :: "uuid \<rightharpoonup> qid list"
  queue_items :: "qid \<Rightarrow> wf_event list"
  next_queue :: qid
  engine_calls :: "(uuid \<times> engine_call) list"

datatype http_error = HTTPException nat string

record WorkflowResponse =
  resp_workflow_id :: uuid
  resp_status :: string
  resp_message :: string

record AgentStatusResponse =
  st_workflow_id :: uuid
  st_status :: string
  st_config :: pyval
  st_result :: "pyval option"
  st_error :: "string option"

definition not_found :: "uuid \<Rightarrow> http_error" where
  "not_found wid = HTTPException 404 (''Workflow '' @ wid @ '' not found'')"

text \<open>
  \<open>_emit_event\<close>; the loop over the workflow's queues is \<open>put_all\<close>.
\<close>

definition emit_event :: "api_state \<Rightarrow> int \<Rightarrow> uuid \<Rightarrow> string \<Rightarrow> pyval \<Rightarrow> api_state" where
  "emit_event s now wid event_type data =
     (case event_queues s wid of
        None \<Rightarrow> s
      | Some qs \<Rightarrow>
          s\<lparr>queue_items :=
              put_all qs
                \<lparr>ev_workflow_id = wid, ev_event_type = event_type,
                 ev_timestamp = now, ev_data = data\<rparr>
                (queue_items s)\<rparr>)"

definition start_agent_workflow ::
    "api_state \<Rightarrow> uuid \<Rightarrow> pyval \<Rightarrow> pyval \<Rightarrow> WorkflowResponse \<times> api_state" where
  "start_agent_workflow s wid cfg inp =
     (\<lparr>resp_workflow_id = wid, resp_status = ''initializing'',
       resp_message = ''Agent workflow started successfully''\<rparr>,
      s\<lparr>event_queues := (event_queues s)(wid \<mapsto> []),
        active_workflows := (active_workflows s)(wid \<mapsto>
          \<lparr>wf_status = ''initializing'', wf_config = cfg, wf_input = inp,
           wf_result = None, wf_error = None\<rparr>)\<rparr>)"

text \<open>
  \<open>_run_agent_workflow\<close> in its three steps: up to the call of \<open>workflow.arun\<close>, the return
  of that call, and the exception handler.  \<open>active_workflows[workflow_id]\<close> raises
  \<open>KeyError\<close> for an unknown id, which ends the task with the state as it is.
\<close>

definition set_status :: "api_state \<Rightarrow> uuid \<Rightarrow> (workflow_data \<Rightarrow> workflow_data) \<Rightarrow> api_state option" where
  "set_status s wid f =
     (case active_workflows s wid of
        None \<Rightarrow> None
      | Some w \<Rightarrow> Some (s\<lparr>active_workflows := (active_workflows s)(wid \<mapsto> f w)\<rparr>))"

definition run_failed :: "api_state \<Rightarrow> int \<Rightarrow> uuid \<Rightarrow> string \<Rightarrow> api_state" where
  "run_failed s now wid msg =
     (case set_status s wid (\<lambda>w. w\<lparr>wf_status := ''error'', wf_error := Some msg\<rparr>) of
        None \<Rightarrow> s
      | Some s1 \<Rightarrow>
          emit_event s1 now wid ''error''
            (PDict [(''status'', PStr ''error''), (''error'', PStr msg)]))"

definition run_started :: "api_state \<Rightarrow> int \<Rightarrow> uuid \<Rightarrow> pyval \<Rightarrow> api_state" where
  "run_started s now wid inp =
     (case set_status s wid (\<lambda>w. w\<lparr>wf_status := ''running''\<rparr>) of
        None \<Rightarrow> run_failed s now wid ''KeyError''
      | Some s1 \<Rightarrow>
          (let s2 = emit_event s1 now wid ''status_update'' (PDict [(''status'', PStr ''running'')])
           in s2\<lparr>engine_calls := engine_calls s2 @ [(wid, Arun inp)]\<rparr>))"

definition run_completed :: "api_state \<Rightarrow> int \<Rightarrow> uuid \<Rightarrow> pyval \<Rightarrow> api_state" where
  "run_completed s now wid res =
     (case set_status s wid (\<lambda>w. w\<lparr>wf_status := ''completed'', wf_result := Some res\<rparr>) of
        None \<Rightarrow> run_failed s now wid ''KeyError''
      | Some s1 \<Rightarrow>
          emit_event s1 now wid ''completion''
            (PDict [(''status'', PStr ''completed''), (''result'', res)]))"

text \<open>
  An engine-native event, as the callback receives it: a dictionary whose keys \<open>type\<close>,
  \<open>timestamp\<close> and \<open>data\<close> may each be absent.  \<open>_handle_workflow_event\<close> builds an
  \<open>AgentEventResponse\<close> from it and emits the response's \<open>dict()\<close> under its event type.
\<close>

record engine_event =
  ee_type :: "string option"
  ee_timestamp :: "int option"
  ee_data :: "(string \<times> pyval) list option"

definition AgentEventResponse_dict :: "uuid \<Rightarrow> engine_event \<Rightarrow> pyval" where
  "AgentEventResponse_dict wid e =
     PDict [(''workflow_id'', PUuid wid),
            (''event_type'', PStr (case ee_type e of None \<Rightarrow> ''unknown'' | Some t \<Rightarrow> t)),
            (''timestamp'', (case ee_timestamp e of None \<Rightarrow> PNone | Some n \<Rightarrow> PInt n)),
            (''data'', PDict (case ee_data e of None \<Rightarrow> [] | Some d \<Rightarrow> d))]"

definition handle_workflow_event :: "api_state \<Rightarrow> int \<Rightarrow> uuid \<Rightarrow> engine_event \<Rightarrow> api_state" where
  "handle_workflow_event s now wid e =
     emit_event s now wid (case ee_type e of None \<Rightarrow> ''unknown'' | Some t \<Rightarrow> t)
       (AgentEventResponse_dict wid e)"

definition get_workflow_status :: "api_state \<Rightarrow> uuid \<Rightarrow> http_error + AgentStatusResponse" where
  "get_workflow_status s wid =
     (case active_workflows s wid of
        None \<Rightarrow> Inl (not_found wid)
      | Some w \<Rightarrow>
          Inr \<lparr>st_workflow_id = wid, st_status = wf_status w, st_config = wf_config w,
               st_result = wf_result w, st_error = wf_error w\<rparr>)"

definition submit_agent_action ::
    "api_state \<Rightarrow> int \<Rightarrow> uuid \<Rightarrow> string \<Rightarrow> pyval \<Rightarrow> string option
       \<Rightarrow> (http_error + WorkflowResponse) \<times> api_state" where
  "submit_agent_action s now wid action_type action_data outcome =
     (case active_workflows s wid of
        None \<Rightarrow> (Inl (not_found wid), s)
      | Some w \<Rightarrow>
          if wf_status w \<notin> set [''running'', ''waiting_for_input'']
          then (Inl (HTTPException 400
                  (''Workflow is in '' @ wf_status w @ '' state and cannot receive actions'')), s)
          else
            (let s1 = s\<lparr>engine_calls := engine_calls s @ [(wid, SubmitAction action_type action_data)]\<rparr>
             in case outcome of
                  Some msg \<Rightarrow> (Inl (HTTPException 500 msg), s1)
                | None \<Rightarrow>
                    (Inr \<lparr>resp_workflow_id = wid, resp_status = wf_status w,
                          resp_message = ''Action submitted successfully''\<rparr>,
                     emit_event s1 now wid ''action_submitted''
                       (PDict [(''action_type'', PStr action_type),
                               (''action_data'', action_data)]))))"

definition submit_agent_feedback ::
    "api_state \<Rightarrow> int \<Rightarrow> uuid \<Rightarrow> string \<Rightarrow> pyval \<Rightarrow> string option
       \<Rightarrow> (http_error + WorkflowResponse) \<times> api_state" where
  "submit_agent_feedback s now wid feedback_type feedback_data outcome =
     (case active_workflows s wid of
        None \<Rightarrow> (Inl (not_found wid), s)
      | Some w \<Rightarrow>
          (let s1 = s\<lparr>engine_calls := engine_calls s @ [(wid, SubmitFeedback feedback_type feedback_data)]\<rparr>
           in case outcome of
                Some msg \<Rightarrow> (Inl (HTTPException 500 msg), s1)
              | None \<Rightarrow>
                  (Inr \<lparr>resp_workflow_id = wid, resp_status = wf_status w,
                        resp_message = ''Feedback submitted successfully''\<rparr>,
                   emit_event s1 now wid ''feedback_submitted''
                     (PDict [(''feedback_type'', PStr feedback_type),
                             (''feedback_data'', feedback_data)]))))"

definition cancel_workflow ::
    "api_state \<Rightarrow> int \<Rightarrow> uuid \<Rightarrow> string option \<Rightarrow> (http_error + WorkflowResponse) \<times> api_state" where
  "cancel_workflow s now wid outcome =
     (case active_workflows s wid of
        None \<Rightarrow> (Inl (not_found wid), s)
      | Some w \<Rightarrow>
          (let s1 = s\<lparr>engine_calls := engine_calls s @ [(wid, Cancel)]\<rparr>
           in case outcome of
                Some msg \<Rightarrow> (Inl (HTTPException 500 msg), s1)
              | None \<Rightarrow>
                  (Inr \<lparr>resp_workflow_id = wid, resp_status = ''cancelled'',
                        resp_message = ''Workflow cancelled successfully''\<rparr>,
                   emit_event
                     (s1\<lparr>active_workflows :=
                           (active_workflows s1)(wid \<mapsto> w\<lparr>wf_status := ''cancelled''\<rparr>)\<rparr>)
                     now wid ''cancelled'' (PDict [(''status'', PStr ''cancelled'')]))))"

text \<open>
  \<open>subscribe_to_workflow_events\<close> up to the point where it returns the streaming response:
  a new queue is appended to the workflow's list and receives the connection event.  The
  result names the queue that the response's generator reads.
\<close>

definition subscribe_to_workflow_events ::
    "api_state \<Rightarrow> int \<Rightarrow> uuid \<Rightarrow> (http_error + qid) \<times> api_state" where
  "subscribe_to_workflow_events s now wid =
     (case active_workflows s wid of
        None \<Rightarrow> (Inl (not_found wid), s)
      | Some w \<Rightarrow>
          (let q = next_queue s;
               qs = (case event_queues s wid of None \<Rightarrow> [] | Some qs \<Rightarrow> qs)
           in (Inr q,
               s\<lparr>next_queue := Suc q,
                 event_queues := (event_queues s)(wid \<mapsto> qs @ [q]),
                 queue_items := (queue_items s)(q :=
                   [\<lparr>ev_workflow_id = wid, ev_event_type = ''connection_established'',
                     ev_timestamp = now,
                     ev_data = PDict [(''status'', PStr (wf_status w))]\<rparr>])\<rparr>)))"

definition initial_state :: api_state where
  "initial_state =
     \<lparr>active_workflows = Map.empty, event_queues = Map.empty,
      queue_items = (\<lambda>_. []), next_queue = 0, engine_calls = []\<rparr>"

text \<open>
  The generator \<open>event_generator\<close> of the streaming response.  One pass through the loop
  body is \<open>generator_pass\<close>.  What the client side does in that pass is its argument:
  \<open>Disconnected\<close> when \<open>request.is_disconnected()\<close> answers true, \<open>Connected\<close> when the
  pass runs to the \<open>yield\<close> and the generator is resumed, \<open>Closed\<close> when it runs to the
  \<open>yield\<close> and the generator is closed or cancelled there, \<open>Raised\<close> when awaiting
  \<open>request.is_disconnected()\<close> raises.  The wait on the queue gives its oldest item, or
  times out when the queue is empty.  \<open>json.dumps\<close> raises for an item that cannot be
  serialized.  The \<open>finally\<close> clause is \<open>release_queue\<close>.
\<close>

datatype client_signal = Disconnected | Connected | Closed | Raised

datatype generator_exit = LoopBreak | ExceptionRaised

definition event_dict :: "wf_event \<Rightarrow> pyval" where
  "event_dict ev =
     PDict [(''workflow_id'', PStr (ev_workflow_id ev)), (''event_type'', PStr (ev_event_type ev)),
            (''timestamp'', PInt (ev_timestamp ev)), (''data'', ev_data ev)]"

definition release_queue :: "api_state \<Rightarrow> uuid \<Rightarrow> qid \<Rightarrow> api_state" where
  "release_queue s wid q =
     (case event_queues s wid of
        None \<Rightarrow> s
      | Some qs \<Rightarrow>
          if q \<in> set qs then s\<lparr>event_queues := (event_queues s)(wid \<mapsto> remove1 q qs)\<rparr> else s)"

definition generator_pass ::
    "limits \<Rightarrow> api_state \<Rightarrow> qid \<Rightarrow> client_signal \<Rightarrow> string list \<times> generator_exit option \<times> api_state" where
  "generator_pass L s q sig =
     (case sig of
        Disconnected \<Rightarrow> ([], Some LoopBreak, s)
      | Raised \<Rightarrow> ([], Some ExceptionRaised, s)
      | _ \<Rightarrow>
          (let after = (if sig = Closed then Some ExceptionRaised else None)
           in case queue_items s q of
                [] \<Rightarrow> (['': keepalive'' @ [CHR 0x0A, CHR 0x0A]], after, s)
              | ev # rest \<Rightarrow>
                  (let s1 = s\<lparr>queue_items := (queue_items s)(q := rest)\<rparr>
                   in case json_dumps L (event_dict ev) of
                        Inl err \<Rightarrow> ([], Some ExceptionRaised, s1)
                      | Inr js \<Rightarrow> ([''data: '' @ js @ [CHR 0x0A, CHR 0x0A]], after, s1))))"

text \<open>
  Between two passes of the generator the other tasks of the process run.  \<open>api_call\<close>
  lists what they can do to the shared state: the handlers of the module, the steps of a
  workflow's background task, and the exit of another subscriber's generator.
\<close>

datatype api_call =
    CallStart uuid pyval pyval
  | CallRunStarted uuid pyval
  | CallRunCompleted uuid pyval
  | CallRunFailed uuid string
  | CallEngineEvent uuid engine_event
  | CallAction uuid string pyval "string option"
  | CallFeedback uuid string pyval "string option"
  | CallCancel uuid "string option"
  | CallSubscribe uuid
  | CallGeneratorExit uuid qid

fun api_step :: "api_state \<Rightarrow> int \<Rightarrow> api_call \<Rightarrow> api_state" where
  "api_step s now (CallStart wid cfg inp) = snd (start_agent_workflow s wid cfg inp)"
| "api_step s now (CallRunStarted wid inp) = run_started s now wid inp"
| "api_step s now (CallRunCompleted wid res) = run_completed s now wid res"
| "api_step s now (CallRunFailed wid msg) = run_failed s now wid msg"
| "api_step s now (CallEngineEvent wid e) = handle_workflow_event s now wid e"
| "api_step s now (CallAction wid ty d outcome) = snd (submit_agent_action s now wid ty d outcome)"
| "api_step s now (CallFeedback wid ty d outcome) = snd (submit_agent_feedback s now wid ty d outcome)"
| "api_step s now (CallCancel wid outcome) = snd (cancel_workflow s now wid outcome)"
| "api_step s now (CallSubscribe wid) = snd (subscribe_to_workflow_events s now wid)"
| "api_step s now (CallGeneratorExit wid q) = release_queue s wid q"

text \<open>
  A run of the generator for the queue \<open>q\<close> of the workflow \<open>wid\<close>: its own passes,
  interleaved with the steps of other tasks.  The result is the chunks it has yielded,
  how it left the loop (\<open>None\<close> while it is still in the loop when the list ends), and the
  state.  A run that leaves the loop goes through the \<open>finally\<close> clause and is over.
\<close>

datatype tick = Pass client_signal | Other int api_call

fun event_generator ::
    "limits \<Rightarrow> api_state \<Rightarrow> uuid \<Rightarrow> qid \<Rightarrow> tick list \<Rightarrow> string list \<times> generator_exit option \<times> api_state" where
  "event_generator L s wid q [] = ([], None, s)"
| "event_generator L s wid q (Other now c # ts) = event_generator L (api_step s now c) wid q ts"
| "event_generator L s wid q (Pass sig # ts) =
     (case generator_pass L s q sig of
        (chunks, Some ex, s1) \<Rightarrow> (chunks, Some ex, release_queue s1 wid q)
      | (chunks, None, s1) \<Rightarrow>
          (case event_generator L s1 wid q ts of (later, ex, s2) \<Rightarrow> (chunks @ later, ex, s2)))"

text \<open>
  The lists of \<open>event_queues\<close> hold no queue twice, and every queue in them has been
  handed out by the counter.
\<close>

definition registry_ok :: "api_state \<Rightarrow> bool" where
  "registry_ok s =
     (\<forall>wid qs. event_queues s wid = Some qs \<longrightarrow> distinct qs \<and> (\<forall>q \<in> set qs. q < next_queue s))"

definition queues_of :: "api_state \<Rightarrow> uuid \<Rightarrow> qid list" where
  "queues_of s wid = (case event_queues s wid of None \<Rightarrow> [] | Some qs \<Rightarrow> qs)"

definition exit_signals :: "tick set" where
  "exit_signals = {Pass Disconnected, Pass Closed, Pass Raised}"

fun is_pass :: "tick \<Rightarrow> bool" where
  "is_pass (Pass sig) = True"
| "is_pass (Other now c) = False"

section \<open>A run of one workflow, used to instantiate the theorems\<close>


definition example_input :: pyval where
  "example_input = PDict [(''q'', PStr ''hello'')]"

definition example_started :: api_state where
  "example_started = snd (start_agent_workflow initial_state ''w1'' (PDict []) example_input)"

definition example_subscribed :: api_state where
  "example_subscribed = snd (subscribe_to_workflow_events example_started 0 ''w1'')"

definition example_running :: api_state where
  "example_running = run_started example_subscribed 1 ''w1'' example_input"

definition example_completed :: api_state where
  "example_completed = run_completed example_running 2 ''w1'' (PDict [(''answer'', PStr ''hi'')])"

definition example_error :: api_state where
  "example_error = run_failed example_running 2 ''w1'' ''boom''"

definition example_cancelled :: api_state where
  "example_cancelled = snd (cancel_workflow example_running 2 ''w1'' None)"

lemmas example_defs =
  example_input_def example_started_def example_subscribed_def example_running_def
  example_completed_def example_error_def example_cancelled_def initial_state_def
  start_agent_workflow_def subscribe_to_workflow_events_def run_started_def run_completed_def
  run_failed_def set_status_def emit_event_def cancel_workflow_def

definition example_two_subscribers :: api_state where
  "example_two_subscribers = snd (subscribe_to_workflow_events example_running 2 ''w1'')"

text \<open>
  Limits for the examples: the digit limit that the interpreter starts with, and a depth
  that a recursion limit of 1000 leaves free.
\<close>

definition example_limits :: limits where
  "example_limits =
     \<lparr>asdict_depth = 100, dumps_depth = 100, loads_depth = 100, max_str_digits = 4300\<rparr>"





lemma put_all_items:
  "put_all qs ev items q = items q @ replicate (count_list qs q) ev"
  by (induction qs arbitrary: items) (auto simp: replicate_append_same)

lemma count_list_distinct:
  "distinct qs \<Longrightarrow> count_list qs q = (if q \<in> set qs then 1 else 0)"
  by (induction qs) auto

lemma put_all_member:
  "q \<in> set qs \<Longrightarrow> distinct qs \<Longrightarrow> put_all qs ev items q = items q @ [ev]"
  by (simp add: put_all_items count_list_distinct)

lemma put_all_Nil: "put_all [] ev items = items"
  by simp

lemma emit_event_registry [simp]:
  "event_queues (emit_event s now wid ty d) = event_queues s"
  "next_queue (emit_event s now wid ty d) = next_queue s"
  by (simp_all add: emit_event_def split: option.splits)

lemma registry_ok_cong:
  "event_queues s' = event_queues s \<Longrightarrow> next_queue s' = next_queue s \<Longrightarrow>
     registry_ok s' = registry_ok s"
  by (simp add: registry_ok_def)

lemma registry_ok_release: "registry_ok s \<Longrightarrow> registry_ok (release_queue s wid q)"
  by (auto simp: registry_ok_def release_queue_def split: option.splits if_splits
        dest: notin_set_remove1)

lemma release_queue_removes:
  "registry_ok s \<Longrightarrow> q \<notin> set (queues_of (release_queue s wid q) wid)"
  by (auto simp: registry_ok_def release_queue_def queues_of_def split: option.splits)

lemma release_queue_registry:
  "event_queues (release_queue s wid q) =
     (event_queues s)(wid := map_option (remove1 q) (event_queues s wid))"
  by (auto simp: release_queue_def remove1_idem split: option.splits)

lemma registry_ok_subscribe:
  "registry_ok s \<Longrightarrow> registry_ok (snd (subscribe_to_workflow_events s now wid))"
  by (fastforce simp: registry_ok_def subscribe_to_workflow_events_def Let_def less_Suc_eq
        split: option.splits if_splits)

lemma registry_ok_start:
  "registry_ok s \<Longrightarrow> registry_ok (snd (start_agent_workflow s wid cfg inp))"
  by (auto simp: registry_ok_def start_agent_workflow_def)

lemma run_failed_registry [simp]:
  "event_queues (run_failed s now wid msg) = event_queues s"
  "next_queue (run_failed s now wid msg) = next_queue s"
  by (auto simp: run_failed_def set_status_def split: option.splits)

lemma run_started_registry [simp]:
  "event_queues (run_started s now wid inp) = event_queues s"
  "next_queue (run_started s now wid inp) = next_queue s"
  by (auto simp: run_started_def set_status_def Let_def split: option.splits)

lemma run_completed_registry [simp]:
  "event_queues (run_completed s now wid res) = event_queues s"
  "next_queue (run_completed s now wid res) = next_queue s"
  by (auto simp: run_completed_def set_status_def split: option.splits)

lemma handle_workflow_event_registry [simp]:
  "event_queues (handle_workflow_event s now wid e) = event_queues s"
  "next_queue (handle_workflow_event s now wid e) = next_queue s"
  by (simp_all add: handle_workflow_event_def)

lemma submit_agent_action_registry [simp]:
  "event_queues (snd (submit_agent_action s now wid ty d outcome)) = event_queues s"
  "next_queue (snd (submit_agent_action s now wid ty d outcome)) = next_queue s"
  by (auto simp: submit_agent_action_def Let_def split: option.splits)

lemma submit_agent_feedback_registry [simp]:
  "event_queues (snd (submit_agent_feedback s now wid ty d outcome)) = event_queues s"
  "next_queue (snd (submit_agent_feedback s now wid ty d outcome)) = next_queue s"
  by (auto simp: submit_agent_feedback_def Let_def split: option.splits)

lemma cancel_workflow_registry [simp]:
  "event_queues (snd (cancel_workflow s now wid outcome)) = event_queues s"
  "next_queue (snd (cancel_workflow s now wid outcome)) = next_queue s"
  by (auto simp: cancel_workflow_def Let_def split: option.splits)

lemma registry_ok_api_step: "registry_ok s \<Longrightarrow> registry_ok (api_step s now c)"
  by (cases c)
     (simp_all add: registry_ok_subscribe registry_ok_start registry_ok_release
        registry_ok_cong [of "run_started _ _ _ _"] registry_ok_cong [of "run_completed _ _ _ _"]
        registry_ok_cong [of "run_failed _ _ _ _"] registry_ok_cong [of "handle_workflow_event _ _ _ _"]
        registry_ok_cong [of "snd (submit_agent_action _ _ _ _ _ _)"]
        registry_ok_cong [of "snd (submit_agent_feedback _ _ _ _ _ _)"]
        registry_ok_cong [of "snd (cancel_workflow _ _ _ _)"])

lemma generator_pass_registry:
  "generator_pass L s q sig = (chunks, ex, s1) \<Longrightarrow>
     event_queues s1 = event_queues s \<and> next_queue s1 = next_queue s"
  by (auto simp: generator_pass_def Let_def split: client_signal.splits list.splits sum.splits)

lemma generator_pass_exit:
  "Pass sig \<in> exit_signals \<Longrightarrow> fst (snd (generator_pass L s q sig)) \<noteq> None"
  by (auto simp: generator_pass_def exit_signals_def Let_def split: list.splits sum.splits)

lemma event_generator_ok:
  "registry_ok s \<Longrightarrow> event_generator L s wid q ticks = (chunks, ex, s') \<Longrightarrow>
     registry_ok s' \<and> (ex \<noteq> None \<longrightarrow> q \<notin> set (queues_of s' wid))"
proof (induction L s wid q ticks arbitrary: chunks ex s' rule: event_generator.induct)
  case (1 L s wid q)
  then show ?case by simp
next
  case (2 L s wid q now c ts)
  then show ?case by (simp add: registry_ok_api_step)
next
  case (3 L s wid q sig ts)
  obtain c1 e1 s1 where p: "generator_pass L s q sig = (c1, e1, s1)"
    by (cases "generator_pass L s q sig") auto
  from generator_pass_registry [OF p] "3.prems"(1) have ok1: "registry_ok s1"
    by (simp add: registry_ok_def)
  show ?case
  proof (cases e1)
    case None
    obtain c2 e2 s2 where r: "event_generator L s1 wid q ts = (c2, e2, s2)"
      by (cases "event_generator L s1 wid q ts") auto
    from "3.prems"(2) p None r have "ex = e2" "s' = s2" by simp_all
    with "3.IH" [OF p [symmetric] _ _ ok1 r] None show ?thesis by simp
  next
    case (Some x)
    with "3.prems"(2) p have "s' = release_queue s1 wid q" "ex = Some x" by simp_all
    with ok1 show ?thesis
      by (simp add: registry_ok_release release_queue_removes)
  qed
qed

lemma event_generator_exits:
  "\<exists>t \<in> set ticks. t \<in> exit_signals \<Longrightarrow> fst (snd (event_generator L s wid q ticks)) \<noteq> None"
proof (induction L s wid q ticks rule: event_generator.induct)
  case (1 L s wid q)
  then show ?case by simp
next
  case (2 L s wid q now c ts)
  then show ?case by (auto simp: exit_signals_def)
next
  case (3 L s wid q sig ts)
  obtain c1 e1 s1 where p: "generator_pass L s q sig = (c1, e1, s1)"
    by (cases "generator_pass L s q sig") auto
  show ?case
  proof (cases e1)
    case None
    with p generator_pass_exit [of sig L s q] have "Pass sig \<notin> exit_signals" by auto
    with "3.prems" have "\<exists>t \<in> set ts. t \<in> exit_signals" by auto
    from "3.IH" [OF p [symmetric] _ _ this] p None show ?thesis
      by (auto split: prod.splits)
  next
    case (Some x)
    with p show ?thesis by simp
  qed
qed

lemma event_generator_alone:
  "\<forall>t \<in> set ticks. is_pass t \<Longrightarrow> event_generator L s wid q ticks = (chunks, Some ex, s') \<Longrightarrow>
     event_queues s' = (event_queues s)(wid := map_option (remove1 q) (event_queues s wid))"
proof (induction L s wid q ticks arbitrary: chunks s' rule: event_generator.induct)
  case (1 L s wid q)
  then show ?case by simp
next
  case (2 L s wid q now c ts)
  then show ?case by simp
next
  case (3 L s wid q sig ts)
  obtain c1 e1 s1 where p: "generator_pass L s q sig = (c1, e1, s1)"
    by (cases "generator_pass L s q sig") auto
  note reg = generator_pass_registry [OF p]
  show ?case
  proof (cases e1)
    case None
    obtain c2 e2 s2 where r: "event_generator L s1 wid q ts = (c2, e2, s2)"
      by (cases "event_generator L s1 wid q ts") auto
    from "3.prems"(2) p None r have e: "e2 = Some ex" "s' = s2" by simp_all
    from "3.prems"(1) have "\<forall>t \<in> set ts. is_pass t" by simp
    from "3.IH" [OF p [symmetric] _ _ this] r e p None reg show ?thesis by simp
  next
    case (Some x)
    with "3.prems"(2) p have "s' = release_queue s1 wid q" by simp
    with reg show ?thesis by (simp add: release_queue_registry)
  qed
qed

lemma registry_ok_initial: "registry_ok initial_state"
  by (simp add: registry_ok_def initial_state_def)

lemma registry_ok_example: "registry_ok example_two_subscribers"
  unfolding example_two_subscribers_def example_running_def example_subscribed_def
    example_started_def
  by (simp add: registry_ok_subscribe registry_ok_start registry_ok_initial
        registry_ok_cong [of "run_started _ _ _ _"])

section \<open>Event types and their values\<close>

lemma EventType_of_value: "EventType_of (PStr (EventType_value t)) = Inr t"
  by (cases t) (simp_all add: EventType_members_def)

lemma EventType_of_Inr:
  "EventType_of v = Inr t \<Longrightarrow> v = PStr (EventType_value t)"
proof (cases v)
  case (PStr s)
  assume "EventType_of v = Inr t"
  with PStr have "find (\<lambda>t. EventType_value t = s) EventType_members = Some t"
    by (simp split: option.splits)
  then have "EventType_value t = s"
    by (auto simp: find_Some_iff)
  with PStr show ?thesis by simp
qed simp_all

section \<open>The decoder inverts the encoder\<close>

lemma of_char_char_of_small: "n < 256 \<Longrightarrow> (of_char (char_of n) :: nat) = n"
  by simp










lemma delimited_simps [simp]:
  "delimited []" "delimited (CHR '','' # cs)" "delimited (CHR '']'' # cs)" "delimited (CHR ''}'' # cs)"
  by (simp_all add: delimited_def)


































section \<open>The scanner consumes its input and stays within its bound\<close>

lemma length_skip_ws: "length (skip_ws cs) \<le> length cs"
  by (simp add: skip_ws_def length_dropWhile_le)

lemma skip_ws_Cons_length: "skip_ws cs = d # r \<Longrightarrow> length r < length cs"
  using length_skip_ws [of cs] by simp

lemma scanstring_shorter: "scanstring cs = Inr (s, r) \<Longrightarrow> length r < length cs"
proof (induction "length cs" arbitrary: cs s r rule: less_induct)
  case less
  have ih: "\<And>xs s' r'. length xs < length cs \<Longrightarrow> scanstring xs = Inr (s', r') \<Longrightarrow> length r' < length xs"
    using less.hyps by blast
  show ?case
  proof (cases cs)
    case Nil
    with less.prems show ?thesis by (simp add: scanstring.simps)
  next
    case (Cons c cs')
    note p = less.prems [unfolded Cons, simplified scanstring.simps(2)]
    show ?thesis
    proof (cases "c = dquote")
      case True
      with p Cons show ?thesis by simp
    next
      case nq: False
      show ?thesis
      proof (cases "c = bslash")
        case True
        with p nq obtain e cs'' where e: "cs' = e # cs''" by (cases cs') auto
        show ?thesis
        proof (cases "e = CHR ''u''")
          case True
          with p nq \<open>c = bslash\<close> e obtain s' where
            "scanstring (drop 4 cs'') = Inr (s', r)"
            by (auto split: option.splits if_splits sum.splits)
          from ih [OF _ this] Cons e show ?thesis by (simp add: less_Suc_eq) linarith
        next
          case False
          with p nq \<open>c = bslash\<close> e obtain s' where
            "scanstring cs'' = Inr (s', r)"
            by (auto split: option.splits if_splits sum.splits)
          from ih [OF _ this] Cons e show ?thesis by simp
        qed
      next
        case False
        with p nq obtain s' where "scanstring cs' = Inr (s', r)"
          by (auto split: option.splits if_splits sum.splits)
        from ih [OF _ this] Cons show ?thesis by simp
      qed
    qed
  qed
qed

lemma match_digits_shorter: "match_digits neg ds = IntNumber i r \<Longrightarrow> length r < length ds"
proof (cases ds)
  case Nil
  assume "match_digits neg ds = IntNumber i r"
  with Nil show ?thesis by (simp add: match_digits_def)
next
  case (Cons d ds')
  assume m: "match_digits neg ds = IntNumber i r"
  show ?thesis
  proof (cases "d = CHR ''0''")
    case True
    with m Cons show ?thesis
      by (auto simp: match_digits_def Let_def split: if_splits)
  next
    case False
    with m Cons have d: "is_digit d" and r: "r = dropWhile is_digit ds"
      by (auto simp: match_digits_def Let_def split: if_splits)
    from d Cons have "dropWhile is_digit ds = dropWhile is_digit ds'" by simp
    with r Cons show ?thesis
      using length_dropWhile_le [of is_digit ds'] by simp
  qed
qed

lemma match_number_shorter: "match_number cs = IntNumber i r \<Longrightarrow> length r < length cs"
  by (cases cs) (auto simp: match_number_def split: if_splits dest!: match_digits_shorter)


lemma parse_array_inv:
  assumes "parse_array L (Suc n) k cs = Inr (vs, r)"
  obtains v r0 d r' where "scan_once L n k cs = Inr (v, r0)" "skip_ws r0 = d # r'"
    "(d = CHR '']'' \<and> r = r') \<or> (d = CHR '','' \<and> (\<exists>vs'. parse_array L n k (skip_ws r') = Inr (vs', r)))"
proof (cases "scan_once L n k cs")
  case (Inl e)
  with assms show ?thesis by simp
next
  case (Inr p)
  obtain v r0 where p: "p = (v, r0)" by (cases p)
  show ?thesis
  proof (cases "skip_ws r0")
    case Nil
    with assms Inr p show ?thesis by simp
  next
    case (Cons d r')
    with assms Inr p have
      "(d = CHR '']'' \<and> r = r') \<or> (d = CHR '','' \<and> (\<exists>vs'. parse_array L n k (skip_ws r') = Inr (vs', r)))"
      by (auto split: if_splits sum.splits)
    with that Inr p Cons show ?thesis by blast
  qed
qed

lemma parse_object_inv:
  assumes "parse_object L (Suc n) k cs = Inr (ps, r)"
  obtains key r0 r1 v r2 d r3 where "scanstring cs = Inr (key, r0)" "skip_ws r0 = CHR '':'' # r1"
    "scan_once L n k (skip_ws r1) = Inr (v, r2)" "skip_ws r2 = d # r3"
    "(d = CHR ''}'' \<and> r = r3)
      \<or> (d = CHR '','' \<and> (\<exists>r4 ps'. skip_ws r3 = dquote # r4 \<and> parse_object L n k r4 = Inr (ps', r)))"
proof (cases "scanstring cs")
  case (Inl e)
  with assms show ?thesis by simp
next
  case (Inr p)
  obtain key r0 where p: "p = (key, r0)" by (cases p)
  show ?thesis
  proof (cases "skip_ws r0")
    case Nil
    with assms Inr p show ?thesis by simp
  next
    case (Cons c r1)
    with assms Inr p have c: "c = CHR '':''" by (auto split: if_splits)
    show ?thesis
    proof (cases "scan_once L n k (skip_ws r1)")
      case (Inl e)
      with assms Inr p Cons c show ?thesis by simp
    next
      case v: (Inr pv)
      obtain v r2 where pv: "pv = (v, r2)" by (cases pv)
      show ?thesis
      proof (cases "skip_ws r2")
        case Nil
        with assms Inr p Cons c v pv show ?thesis by simp
      next
        case d: (Cons d r3)
        have "(d = CHR ''}'' \<and> r = r3)
          \<or> (d = CHR '','' \<and> (\<exists>r4 ps'. skip_ws r3 = dquote # r4 \<and> parse_object L n k r4 = Inr (ps', r)))"
          using assms Inr p Cons c v pv d
          by (auto split: if_splits sum.splits list.splits)
        with that Inr p Cons c v pv d show ?thesis by blast
      qed
    qed
  qed
qed


lemma scan_once_string:
  "scan_once L (Suc n) k (dquote # rest) =
     (case scanstring rest of Inl err \<Rightarrow> Inl err | Inr (s, r) \<Rightarrow> Inr (PStr s, r))"
  by simp

lemma scan_once_object:
  "scan_once L (Suc n) k (CHR ''{'' # rest) =
     (if k = 0 then Inl RecursionError
      else
        (case skip_ws rest of
           [] \<Rightarrow> Inl JSONDecodeError
         | d # r \<Rightarrow>
             if d = CHR ''}'' then Inr (PDict [], r)
             else if d = dquote then
               (case parse_object L n (k - 1) r of
                  Inl err \<Rightarrow> Inl err
                | Inr (pairs, r') \<Rightarrow> Inr (PDict (dict_of_pairs pairs), r'))
             else Inl JSONDecodeError))"
  by (simp add: dquote_def)

lemma scan_once_array:
  "scan_once L (Suc n) k (CHR ''['' # rest) =
     (if k = 0 then Inl RecursionError
      else
        (case skip_ws rest of
           [] \<Rightarrow> Inl JSONDecodeError
         | d # r \<Rightarrow>
             if d = CHR '']'' then Inr (PList [], r)
             else
               (case parse_array L n (k - 1) (d # r) of
                  Inl err \<Rightarrow> Inl err
                | Inr (vs, r') \<Rightarrow> Inr (PList vs, r'))))"
  by (simp add: dquote_def)

lemma scan_once_scalar:
  assumes "c \<noteq> dquote" "c \<noteq> CHR ''{''" "c \<noteq> CHR ''[''"
  shows "scan_once L (Suc n) k (c # rest) =
     (if take 4 (c # rest) = ''null'' then Inr (PNone, drop 4 (c # rest))
      else if take 4 (c # rest) = ''true'' then Inr (PBool True, drop 4 (c # rest))
      else if take 5 (c # rest) = ''false'' then Inr (PBool False, drop 5 (c # rest))
      else
        (case match_number (c # rest) of
           IntNumber i r \<Rightarrow> if digits_ok L i then Inr (PInt i, r) else Inl ValueError
         | FloatNumber \<Rightarrow> Inl OutsideModel
         | NoNumber \<Rightarrow>
             if take 3 (c # rest) = ''NaN'' \<or> take 8 (c # rest) = ''Infinity''
                \<or> take 9 (c # rest) = ''-Infinity''
             then Inl OutsideModel
             else Inl JSONDecodeError))"
  using assms by (simp del: take_Suc_Cons drop_Suc_Cons)

lemma scan_once_scalar_fuel:
  assumes "c \<noteq> dquote" "c \<noteq> CHR ''{''" "c \<noteq> CHR ''[''"
  shows "scan_once L (Suc n) k (c # rest) \<noteq> Inl OutOfFuel"
  unfolding scan_once_scalar [OF assms]
  by (simp split: number_match.splits del: take_Suc_Cons drop_Suc_Cons)

lemma scan_once_scalar_shorter:
  assumes "c \<noteq> dquote" "c \<noteq> CHR ''{''" "c \<noteq> CHR ''[''"
    and "scan_once L (Suc n) k (c # rest) = Inr (v, r)"
  shows "length r < length (c # rest)"
proof -
  note s = assms(4) [unfolded scan_once_scalar [OF assms(1-3)]]
  consider (a) "r = drop 4 (c # rest)" | (b) "r = drop 5 (c # rest)"
    | (c) i where "match_number (c # rest) = IntNumber i r"
    using s by (auto split: if_splits number_match.splits simp del: take_Suc_Cons drop_Suc_Cons)
  then show ?thesis
  proof cases
    case a
    then show ?thesis by simp
  next
    case b
    then show ?thesis by simp
  next
    case c
    from match_number_shorter [OF this] show ?thesis .
  qed
qed


lemma scan_shorter:
  "(\<forall>k cs v r. scan_once L n k cs = Inr (v, r) \<longrightarrow> length r < length cs)
   \<and> (\<forall>k cs vs r. parse_array L n k cs = Inr (vs, r) \<longrightarrow> length r < length cs)
   \<and> (\<forall>k cs ps r. parse_object L n k cs = Inr (ps, r) \<longrightarrow> length r < length cs)"
proof (induction n)
  case 0
  show ?case by simp
next
  case (Suc n)
  then have ih1: "\<And>k cs v r. scan_once L n k cs = Inr (v, r) \<Longrightarrow> length r < length cs"
    and ih2: "\<And>k cs vs r. parse_array L n k cs = Inr (vs, r) \<Longrightarrow> length r < length cs"
    and ih3: "\<And>k cs ps r. parse_object L n k cs = Inr (ps, r) \<Longrightarrow> length r < length cs"
    by blast+
  have a: "length r < length cs" if h: "scan_once L (Suc n) k cs = Inr (v, r)" for k cs v r
  proof (cases cs)
    case Nil
    with h show ?thesis by simp
  next
    case (Cons c rest)
    consider (str) "c = dquote" | (obj) "c = CHR ''{''" | (arr) "c = CHR ''[''"
      | (scalar) "c \<noteq> dquote" "c \<noteq> CHR ''{''" "c \<noteq> CHR ''[''" by blast
    then show ?thesis
    proof cases
      case str
      with h Cons obtain s where "scanstring rest = Inr (s, r)"
        by (auto simp: scan_once_string split: sum.splits)
      from scanstring_shorter [OF this] Cons show ?thesis by simp
    next
      case obj
      note e = h [unfolded Cons obj scan_once_object]
      then obtain d r1 where d: "skip_ws rest = d # r1"
        by (cases "skip_ws rest") (auto split: if_splits)
      from skip_ws_Cons_length [OF d] have l: "length r1 < length rest" .
      from e d consider "r = r1" | ps where "parse_object L n (k - 1) r1 = Inr (ps, r)"
        by (auto split: if_splits sum.splits)
      then show ?thesis
      proof cases
        case 1
        with l Cons show ?thesis by simp
      next
        case 2
        from ih3 [OF this] l Cons show ?thesis by simp
      qed
    next
      case arr
      note e = h [unfolded Cons arr scan_once_array]
      then obtain d r1 where d: "skip_ws rest = d # r1"
        by (cases "skip_ws rest") (auto split: if_splits)
      from skip_ws_Cons_length [OF d] have l: "length r1 < length rest" .
      from e d consider "r = r1" | vs where "parse_array L n (k - 1) (d # r1) = Inr (vs, r)"
        by (auto split: if_splits sum.splits)
      then show ?thesis
      proof cases
        case 1
        with l Cons show ?thesis by simp
      next
        case 2
        from ih2 [OF this] l Cons show ?thesis by simp
      qed
    next
      case scalar
      from scan_once_scalar_shorter [OF scalar h [unfolded Cons]] Cons show ?thesis by simp
    qed
  qed
  have b: "length r < length cs" if h: "parse_array L (Suc n) k cs = Inr (vs, r)" for k cs vs r
  proof -
    from h obtain v r0 d r' where s: "scan_once L n k cs = Inr (v, r0)" "skip_ws r0 = d # r'"
      "(d = CHR '']'' \<and> r = r') \<or> (d = CHR '','' \<and> (\<exists>vs'. parse_array L n k (skip_ws r') = Inr (vs', r)))"
      by (rule parse_array_inv)
    from ih1 [OF s(1)] skip_ws_Cons_length [OF s(2)] have l: "length r' < length cs" by simp
    from s(3) show ?thesis
    proof
      assume "d = CHR '']'' \<and> r = r'"
      with l show ?thesis by simp
    next
      assume "d = CHR '','' \<and> (\<exists>vs'. parse_array L n k (skip_ws r') = Inr (vs', r))"
      then obtain vs' where "parse_array L n k (skip_ws r') = Inr (vs', r)" by blast
      from ih2 [OF this] length_skip_ws [of r'] l show ?thesis by simp
    qed
  qed
  have c: "length r < length cs" if h: "parse_object L (Suc n) k cs = Inr (ps, r)" for k cs ps r
  proof -
    from h obtain key r0 r1 v r2 d r3 where s: "scanstring cs = Inr (key, r0)"
      "skip_ws r0 = CHR '':'' # r1" "scan_once L n k (skip_ws r1) = Inr (v, r2)" "skip_ws r2 = d # r3"
      "(d = CHR ''}'' \<and> r = r3)
        \<or> (d = CHR '','' \<and> (\<exists>r4 ps'. skip_ws r3 = dquote # r4 \<and> parse_object L n k r4 = Inr (ps', r)))"
      by (rule parse_object_inv)
    from scanstring_shorter [OF s(1)] skip_ws_Cons_length [OF s(2)] ih1 [OF s(3)]
      length_skip_ws [of r1] skip_ws_Cons_length [OF s(4)]
    have l: "length r3 < length cs" by simp
    from s(5) show ?thesis
    proof
      assume "d = CHR ''}'' \<and> r = r3"
      with l show ?thesis by simp
    next
      assume "d = CHR '','' \<and> (\<exists>r4 ps'. skip_ws r3 = dquote # r4 \<and> parse_object L n k r4 = Inr (ps', r))"
      then obtain r4 ps' where q: "skip_ws r3 = dquote # r4" "parse_object L n k r4 = Inr (ps', r)" by blast
      from ih3 [OF q(2)] skip_ws_Cons_length [OF q(1)] l show ?thesis by simp
    qed
  qed
  from a b c show ?case by blast
qed

lemma scanstring_fuel: "scanstring cs \<noteq> Inl OutOfFuel"
proof (induction "length cs" arbitrary: cs rule: less_induct)
  case less
  have ih: "\<And>xs. length xs < length cs \<Longrightarrow> scanstring xs \<noteq> Inl OutOfFuel"
    using less.hyps by blast
  show ?case
  proof (cases cs)
    case Nil
    then show ?thesis by (simp add: scanstring.simps)
  next
    case (Cons c cs')
    have 1: "scanstring cs' \<noteq> Inl OutOfFuel" using ih [of cs'] Cons by simp
    show ?thesis
    proof (cases "c = dquote")
      case True
      with Cons show ?thesis by (simp add: scanstring.simps)
    next
      case nq: False
      show ?thesis
      proof (cases "c = bslash")
        case True
        show ?thesis
        proof (cases cs')
          case Nil
          with Cons nq True show ?thesis by (simp add: scanstring.simps)
        next
          case e: (Cons e cs'')
          have 2: "scanstring cs'' \<noteq> Inl OutOfFuel" using ih [of cs''] Cons e by simp
          have 3: "scanstring (drop 4 cs'') \<noteq> Inl OutOfFuel"
            using ih [of "drop 4 cs''"] Cons e by simp
          show ?thesis
            unfolding Cons e using nq True 2 3
            by (subst scanstring.simps(2)) (auto split: option.splits sum.splits)
        qed
      next
        case False
        show ?thesis
          unfolding Cons using nq False 1
          by (subst scanstring.simps(2)) (auto split: sum.splits)
      qed
    qed
  qed
qed

lemma parse_array_fuel_inv:
  assumes "parse_array L (Suc n) k cs = Inl OutOfFuel"
  shows "scan_once L n k cs = Inl OutOfFuel
     \<or> (\<exists>v r0 r'. scan_once L n k cs = Inr (v, r0) \<and> skip_ws r0 = CHR '','' # r'
           \<and> parse_array L n k (skip_ws r') = Inl OutOfFuel)"
proof (cases "scan_once L n k cs")
  case (Inl e)
  with assms show ?thesis by simp
next
  case (Inr p)
  obtain v r0 where p: "p = (v, r0)" by (cases p)
  show ?thesis
  proof (cases "skip_ws r0")
    case Nil
    with assms Inr p show ?thesis by simp
  next
    case (Cons d r')
    with assms Inr p show ?thesis
      by (auto split: if_splits sum.splits)
  qed
qed

lemma parse_object_fuel_inv:
  assumes "parse_object L (Suc n) k cs = Inl OutOfFuel"
  shows "\<exists>key r0 r1. scanstring cs = Inr (key, r0) \<and> skip_ws r0 = CHR '':'' # r1
     \<and> (scan_once L n k (skip_ws r1) = Inl OutOfFuel
         \<or> (\<exists>v r2 r3 r4. scan_once L n k (skip_ws r1) = Inr (v, r2) \<and> skip_ws r2 = CHR '','' # r3
               \<and> skip_ws r3 = dquote # r4 \<and> parse_object L n k r4 = Inl OutOfFuel))"
proof (cases "scanstring cs")
  case (Inl e)
  with assms scanstring_fuel [of cs] show ?thesis by simp
next
  case (Inr p)
  obtain key r0 where p: "p = (key, r0)" by (cases p)
  show ?thesis
  proof (cases "skip_ws r0")
    case Nil
    with assms Inr p show ?thesis by simp
  next
    case (Cons c r1)
    with assms Inr p have c: "c = CHR '':''" by (auto split: if_splits)
    show ?thesis
    proof (cases "scan_once L n k (skip_ws r1)")
      case (Inl e)
      with assms Inr p Cons c show ?thesis by simp
    next
      case v: (Inr pv)
      obtain v r2 where pv: "pv = (v, r2)" by (cases pv)
      show ?thesis
      proof (cases "skip_ws r2")
        case Nil
        with assms Inr p Cons c v pv show ?thesis by simp
      next
        case d: (Cons d r3)
        show ?thesis
          using assms Inr p Cons c v pv d
          by (auto split: if_splits sum.splits list.splits)
      qed
    qed
  qed
qed

lemma enough_fuel:
  "(\<forall>k cs. 2 * length cs + 1 \<le> n \<longrightarrow> scan_once L n k cs \<noteq> Inl OutOfFuel)
   \<and> (\<forall>k cs. 2 * length cs + 2 \<le> n \<longrightarrow> parse_array L n k cs \<noteq> Inl OutOfFuel)
   \<and> (\<forall>k cs. 2 * length cs + 2 \<le> n \<longrightarrow> parse_object L n k cs \<noteq> Inl OutOfFuel)"
proof (induction n)
  case 0
  show ?case by simp
next
  case (Suc n)
  then have ih1: "\<And>cs k. 2 * length cs + 1 \<le> n \<Longrightarrow> scan_once L n k cs \<noteq> Inl OutOfFuel"
    and ih2: "\<And>cs k. 2 * length cs + 2 \<le> n \<Longrightarrow> parse_array L n k cs \<noteq> Inl OutOfFuel"
    and ih3: "\<And>cs k. 2 * length cs + 2 \<le> n \<Longrightarrow> parse_object L n k cs \<noteq> Inl OutOfFuel"
    by blast+
  note sh = scan_shorter [of L n, THEN conjunct1, rule_format]
  have a: "scan_once L (Suc n) k cs \<noteq> Inl OutOfFuel" if h: "2 * length cs + 1 \<le> Suc n" for cs k
  proof (cases cs)
    case Nil
    then show ?thesis by simp
  next
    case (Cons c rest)
    consider (str) "c = dquote" | (obj) "c = CHR ''{''" | (arr) "c = CHR ''[''"
      | (scalar) "c \<noteq> dquote" "c \<noteq> CHR ''{''" "c \<noteq> CHR ''[''" by blast
    then show ?thesis
    proof cases
      case str
      from scanstring_fuel [of rest] show ?thesis
        unfolding Cons str scan_once_string by (auto split: sum.splits)
    next
      case obj
      show ?thesis
      proof (cases "skip_ws rest")
        case Nil
        show ?thesis unfolding Cons obj scan_once_object Nil by simp
      next
        case d: (Cons d r1)
        from skip_ws_Cons_length [OF d] h Cons have "2 * length r1 + 2 \<le> n" by simp
        from ih3 [OF this] show ?thesis
          unfolding Cons obj scan_once_object d by (auto split: sum.splits)
      qed
    next
      case arr
      show ?thesis
      proof (cases "skip_ws rest")
        case Nil
        show ?thesis unfolding Cons arr scan_once_array Nil by simp
      next
        case d: (Cons d r1)
        from length_skip_ws [of rest] d h Cons have "2 * length (d # r1) + 2 \<le> n" by simp
        from ih2 [OF this] show ?thesis
          unfolding Cons arr scan_once_array d by (auto split: sum.splits)
      qed
    next
      case scalar
      from scan_once_scalar_fuel [OF scalar] Cons show ?thesis by simp
    qed
  qed
  have b: "parse_array L (Suc n) k cs \<noteq> Inl OutOfFuel" if h: "2 * length cs + 2 \<le> Suc n" for cs k
  proof
    assume "parse_array L (Suc n) k cs = Inl OutOfFuel"
    from parse_array_fuel_inv [OF this] show False
    proof
      assume "scan_once L n k cs = Inl OutOfFuel"
      with ih1 [of cs k] h show False by simp
    next
      assume "\<exists>v r0 r'. scan_once L n k cs = Inr (v, r0) \<and> skip_ws r0 = CHR '','' # r'
           \<and> parse_array L n k (skip_ws r') = Inl OutOfFuel"
      then obtain v r0 r' where s: "scan_once L n k cs = Inr (v, r0)" "skip_ws r0 = CHR '','' # r'"
        "parse_array L n k (skip_ws r') = Inl OutOfFuel" by blast
      from sh [OF s(1)] skip_ws_Cons_length [OF s(2)] length_skip_ws [of r'] h
      have "2 * length (skip_ws r') + 2 \<le> n" by simp
      from ih2 [OF this] s(3) show False by simp
    qed
  qed
  have c: "parse_object L (Suc n) k cs \<noteq> Inl OutOfFuel" if h: "2 * length cs + 2 \<le> Suc n" for cs k
  proof
    assume "parse_object L (Suc n) k cs = Inl OutOfFuel"
    from parse_object_fuel_inv [OF this] obtain key r0 r1 where
      s: "scanstring cs = Inr (key, r0)" "skip_ws r0 = CHR '':'' # r1"
      and t: "scan_once L n k (skip_ws r1) = Inl OutOfFuel
         \<or> (\<exists>v r2 r3 r4. scan_once L n k (skip_ws r1) = Inr (v, r2) \<and> skip_ws r2 = CHR '','' # r3
               \<and> skip_ws r3 = dquote # r4 \<and> parse_object L n k r4 = Inl OutOfFuel)"
      by blast
    from scanstring_shorter [OF s(1)] skip_ws_Cons_length [OF s(2)] length_skip_ws [of r1] h
    have l: "2 * length (skip_ws r1) + 4 \<le> n" by simp
    from t show False
    proof
      assume "scan_once L n k (skip_ws r1) = Inl OutOfFuel"
      with ih1 [of "skip_ws r1" k] l show False by simp
    next
      assume "\<exists>v r2 r3 r4. scan_once L n k (skip_ws r1) = Inr (v, r2) \<and> skip_ws r2 = CHR '','' # r3
               \<and> skip_ws r3 = dquote # r4 \<and> parse_object L n k r4 = Inl OutOfFuel"
      then obtain v r2 r3 r4 where u: "scan_once L n k (skip_ws r1) = Inr (v, r2)"
        "skip_ws r2 = CHR '','' # r3" "skip_ws r3 = dquote # r4"
        "parse_object L n k r4 = Inl OutOfFuel" by blast
      from sh [OF u(1)] skip_ws_Cons_length [OF u(2)] skip_ws_Cons_length [OF u(3)] l
      have "2 * length r4 + 2 \<le> n" by simp
      from ih3 [OF this] u(4) show False by simp
    qed
  qed
  from a b c show ?case by blast
qed

lemma json_loads_enough_fuel: "json_loads L s \<noteq> Inl OutOfFuel"
proof -
  define n where "n = 2 * length s + 2"
  have "2 * length (skip_ws s) + 1 \<le> n"
    using length_skip_ws [of s] by (simp add: n_def)
  from enough_fuel [of n L, THEN conjunct1, rule_format, OF this]
  have "scan_once L n (loads_depth L) (skip_ws s) \<noteq> Inl OutOfFuel" .
  then show ?thesis
    unfolding json_loads_def n_def [symmetric]
    by (auto split: sum.splits)
qed

section \<open>Delivery on the event bus\<close>

lemma publish_loop_items:
  "publish_loop subs ev items q = items q @ replicate (deliveries subs ev q) ev"
proof (induction subs arbitrary: items)
  case Nil
  then show ?case by (simp add: deliveries_def)
next
  case (Cons p subs)
  obtain ts qs where p: "p = (ts, qs)" by (cases p)
  show ?case
    unfolding p by (simp add: Cons.IH deliveries_def put_all_items replicate_add)
qed

lemma deliveries_absent:
  "q \<notin> set (concat (map snd subs)) \<Longrightarrow> deliveries subs ev q = 0"
  by (induction subs) (auto simp: deliveries_def)

lemma deliveries_registered:
  "distinct (concat (map snd subs)) \<Longrightarrow> (ts, qs) \<in> set subs \<Longrightarrow> q \<in> set qs \<Longrightarrow>
     deliveries subs ev q = (if accepts ts ev then 1 else 0)"
proof (induction subs)
  case Nil
  then show ?case by simp
next
  case (Cons p subs)
  obtain k qs' where p: "p = (k, qs')" by (cases p)
  from Cons.prems(1) p have d: "distinct qs'" "distinct (concat (map snd subs))"
    "set qs' \<inter> set (concat (map snd subs)) = {}" by simp_all
  show ?case
  proof (cases "(ts, qs) = (k, qs')")
    case True
    with Cons.prems(3) d(3) have "q \<notin> set (concat (map snd subs))" by auto
    from deliveries_absent [OF this] True Cons.prems(3) d(1) have
      "deliveries subs ev q = 0" "count_list qs' q = 1"
      by (simp_all add: count_list_distinct)
    with True p show ?thesis by (simp add: deliveries_def)
  next
    case False
    with Cons.prems(2) p have m: "(ts, qs) \<in> set subs" by auto
    with Cons.prems(3) have "q \<in> set (concat (map snd subs))" by force
    with d(3) have "q \<notin> set qs'" by auto
    then have "count_list qs' q = 0" by (simp add: count_list_0_iff)
    with Cons.IH [OF d(2) m Cons.prems(3)] p show ?thesis
      by (simp add: deliveries_def)
  qed
qed


lemma append_queue_absent:
  "ts \<notin> fst ` set subs \<Longrightarrow>
     map (\<lambda>(k, qs). if k = ts then (k, qs @ [q]) else (k, qs)) subs = subs"
  by (induction subs) auto

lemma append_queue_present:
  assumes "distinct (map fst subs)" and "(ts, qs) \<in> set subs"
  shows "\<exists>A B. subs = A @ (ts, qs) # B
           \<and> map (\<lambda>(k, qs). if k = ts then (k, qs @ [q]) else (k, qs)) subs
               = A @ (ts, qs @ [q]) # B"
proof -
  from split_list [OF assms(2)] obtain A B where ab: "subs = A @ (ts, qs) # B" by blast
  with assms(1) have "ts \<notin> fst ` set A" "ts \<notin> fst ` set B" by auto
  with ab show ?thesis by (auto simp: append_queue_absent)
qed

lemma bus_ok_subscribe:
  assumes "bus_ok bus"
  shows "bus_ok (snd (subscribe bus ts))"
proof (cases "py_hash ts")
  case (Some err)
  with assms show ?thesis
    by (auto simp: subscribe_def Let_def bus_ok_def less_Suc_eq)
next
  case None
  from assms have d: "distinct (map fst (subscribers bus))"
    and dc: "distinct (concat (map snd (subscribers bus)))"
    and lt: "\<forall>q \<in> set (concat (map snd (subscribers bus))). q < bus_next bus"
    by (simp_all add: bus_ok_def)
  from lt have fresh: "bus_next bus \<notin> set (concat (map snd (subscribers bus)))" by auto
  have n: "bus_next (snd (subscribe bus ts)) = Suc (bus_next bus)"
    using None by (simp add: subscribe_def Let_def)
  show ?thesis
  proof (cases "ts \<in> fst ` set (subscribers bus)")
    case True
    then obtain qs where m: "(ts, qs) \<in> set (subscribers bus)" by auto
    from append_queue_present [OF d m, of "bus_next bus"] obtain A B where
      ab: "subscribers bus = A @ (ts, qs) # B"
      and s0: "map (\<lambda>(k, qs). if k = ts then (k, qs @ [bus_next bus]) else (k, qs)) (subscribers bus)
               = A @ (ts, qs @ [bus_next bus]) # B" by blast
    from True None s0 have s: "subscribers (snd (subscribe bus ts)) = A @ (ts, qs @ [bus_next bus]) # B"
      by (simp add: subscribe_def Let_def)
    have k: "map fst (A @ (ts, qs @ [bus_next bus]) # B) = map fst (subscribers bus)"
      unfolding ab by simp
    have c: "set (concat (map snd (A @ (ts, qs @ [bus_next bus]) # B)))
        = insert (bus_next bus) (set (concat (map snd (subscribers bus))))"
      unfolding ab by auto
    have dn: "distinct (concat (map snd (A @ (ts, qs @ [bus_next bus]) # B)))"
      using dc fresh unfolding ab by auto
    show ?thesis
      unfolding bus_ok_def s n k c using d dn lt by (auto simp: less_Suc_eq)
  next
    case False
    from append_queue_absent [OF False, of "bus_next bus"] False None
    have s: "subscribers (snd (subscribe bus ts)) = subscribers bus @ [(ts, [bus_next bus])]"
      by (simp add: subscribe_def Let_def)
    show ?thesis
      unfolding bus_ok_def s n using d dc lt False fresh by (auto simp: less_Suc_eq)
  qed
qed

lemma registered_subscribe:
  assumes "bus_ok bus" and "registered bus q k"
  shows "registered (snd (subscribe bus ts)) q k"
proof (cases "py_hash ts")
  case (Some err)
  with assms(2) show ?thesis
    by (simp add: subscribe_def Let_def registered_def)
next
  case None
  from assms(1) have d: "distinct (map fst (subscribers bus))" by (simp add: bus_ok_def)
  from assms(2) obtain qs' where m: "(k, qs') \<in> set (subscribers bus)" "q \<in> set qs'"
    by (auto simp: registered_def)
  show ?thesis
  proof (cases "ts \<in> fst ` set (subscribers bus)")
    case True
    then obtain qs where mt: "(ts, qs) \<in> set (subscribers bus)" by auto
    from append_queue_present [OF d mt, of "bus_next bus"] obtain A B where
      ab: "subscribers bus = A @ (ts, qs) # B"
      and s0: "map (\<lambda>(k, qs). if k = ts then (k, qs @ [bus_next bus]) else (k, qs)) (subscribers bus)
               = A @ (ts, qs @ [bus_next bus]) # B" by blast
    from True None s0 have s: "subscribers (snd (subscribe bus ts)) = A @ (ts, qs @ [bus_next bus]) # B"
      by (simp add: subscribe_def Let_def)
    from m(1) ab consider "(k, qs') \<in> set A" | "(k, qs') = (ts, qs)" | "(k, qs') \<in> set B" by auto
    then show ?thesis
    proof cases
      case 1
      with m(2) show ?thesis unfolding registered_def s by auto
    next
      case 2
      with m(2) have "(k, qs @ [bus_next bus]) \<in> set (A @ (ts, qs @ [bus_next bus]) # B)"
        "q \<in> set (qs @ [bus_next bus])" by auto
      then show ?thesis unfolding registered_def s by blast
    next
      case 3
      with m(2) show ?thesis unfolding registered_def s by auto
    qed
  next
    case False
    from append_queue_absent [OF False, of "bus_next bus"] False None
    have s: "subscribers (snd (subscribe bus ts)) = subscribers bus @ [(ts, [bus_next bus])]"
      by (simp add: subscribe_def Let_def)
    from m show ?thesis unfolding registered_def s by auto
  qed
qed

lemma subscribe_new_queue:
  assumes "bus_ok bus" and "subscribe bus ts = (Inr c, bus')"
  shows "queue c = bus_next bus \<and> event_types c = ts \<and> registered bus' (queue c) ts
     \<and> bus_items bus' (queue c) = [] \<and> queue c \<notin> set (concat (map snd (subscribers bus)))"
proof -
  from assms(2) have h: "py_hash ts = None"
    by (cases "py_hash ts") (auto simp: subscribe_def Let_def)
  from assms(2) h have c: "queue c = bus_next bus" "event_types c = ts"
    and i: "bus_items bus' (bus_next bus) = []"
    by (auto simp: subscribe_def Let_def)
  from assms(2) have b: "bus' = snd (subscribe bus ts)" by simp
  from assms(1) have d: "distinct (map fst (subscribers bus))" by (simp add: bus_ok_def)
  have r: "registered bus' (bus_next bus) ts"
  proof (cases "ts \<in> fst ` set (subscribers bus)")
    case True
    then obtain qs where mt: "(ts, qs) \<in> set (subscribers bus)" by auto
    from append_queue_present [OF d mt, of "bus_next bus"] obtain A B where
      s0: "map (\<lambda>(k, qs). if k = ts then (k, qs @ [bus_next bus]) else (k, qs)) (subscribers bus)
               = A @ (ts, qs @ [bus_next bus]) # B" by blast
    from True h s0 have "subscribers bus' = A @ (ts, qs @ [bus_next bus]) # B"
      unfolding b by (simp add: subscribe_def Let_def)
    then show ?thesis by (auto simp: registered_def)
  next
    case False
    from append_queue_absent [OF False, of "bus_next bus"] False h
    have "subscribers bus' = subscribers bus @ [(ts, [bus_next bus])]"
      unfolding b by (simp add: subscribe_def Let_def)
    then show ?thesis by (auto simp: registered_def)
  qed
  from assms(1) have "bus_next bus \<notin> set (concat (map snd (subscribers bus)))"
    by (auto simp: bus_ok_def)
  with c i r show ?thesis by simp
qed


lemma unsubscribe_loop_keys:
  "fst ` set (unsubscribe_loop subs q) \<subseteq> fst ` set subs"
  by (induction subs) (force split: if_splits)+

lemma unsubscribe_loop_queues:
  "set (concat (map snd (unsubscribe_loop subs q))) \<subseteq> set (concat (map snd subs))"
proof (induction subs)
  case Nil
  then show ?case by simp
next
  case (Cons p subs)
  obtain k qs where p: "p = (k, qs)" by (cases p)
  have "set (remove1 q qs) \<subseteq> set qs" by (rule set_remove1_subset)
  with Cons show ?case unfolding p by auto
qed

lemma unsubscribe_loop_distinct_keys:
  "distinct (map fst subs) \<Longrightarrow> distinct (map fst (unsubscribe_loop subs q))"
proof (induction subs)
  case Nil
  then show ?case by simp
next
  case (Cons p subs)
  obtain k qs where p: "p = (k, qs)" by (cases p)
  from Cons.prems p have k: "k \<notin> fst ` set subs" and d: "distinct (map fst subs)" by auto
  from k unsubscribe_loop_keys [of subs q] have "k \<notin> fst ` set (unsubscribe_loop subs q)" by blast
  with Cons.IH [OF d] d k show ?case unfolding p by auto
qed

lemma unsubscribe_loop_distinct_queues:
  "distinct (concat (map snd subs)) \<Longrightarrow> distinct (concat (map snd (unsubscribe_loop subs q)))"
proof (induction subs)
  case Nil
  then show ?case by simp
next
  case (Cons p subs)
  obtain k qs where p: "p = (k, qs)" by (cases p)
  from Cons.prems p have d: "distinct qs" "distinct (concat (map snd subs))"
    "set qs \<inter> set (concat (map snd subs)) = {}" by simp_all
  have r: "set (remove1 q qs) \<subseteq> set qs" by (rule set_remove1_subset)
  show ?case
  proof (cases "q \<in> set qs")
    case True
    with d r show ?thesis unfolding p by auto
  next
    case False
    from unsubscribe_loop_queues [of subs q] d(3)
    have "set qs \<inter> set (concat (map snd (unsubscribe_loop subs q))) = {}" by blast
    with False Cons.IH [OF d(2)] d(1) show ?thesis unfolding p by simp
  qed
qed

lemma unsubscribe_loop_registered:
  "(ts, qs) \<in> set subs \<Longrightarrow> q0 \<in> set qs \<Longrightarrow> q0 \<noteq> q \<Longrightarrow>
     \<exists>qs'. (ts, qs') \<in> set (unsubscribe_loop subs q) \<and> q0 \<in> set qs'"
proof (induction subs)
  case Nil
  then show ?case by simp
next
  case (Cons p subs)
  obtain k queues where p: "p = (k, queues)" by (cases p)
  show ?case
  proof (cases "(ts, qs) = (k, queues)")
    case True
    with Cons.prems have m: "q0 \<in> set (remove1 q queues)" by simp
    then have "remove1 q queues \<noteq> []" by auto
    with True m show ?thesis unfolding p
      by (cases "q \<in> set queues") (auto simp: Cons.prems)
  next
    case False
    with Cons.prems p have "(ts, qs) \<in> set subs" by auto
    from Cons.IH [OF this Cons.prems(2,3)] obtain qs' where
      "(ts, qs') \<in> set (unsubscribe_loop subs q)" "q0 \<in> set qs'" by blast
    moreover from \<open>(ts, qs) \<in> set subs\<close> Cons.prems(2) have "\<exists>qs'. (ts, qs') \<in> set subs \<and> q0 \<in> set qs'"
      by blast
    ultimately show ?thesis unfolding p by auto
  qed
qed

lemma bus_ok_unsubscribe: "bus_ok bus \<Longrightarrow> bus_ok (unsubscribe bus c)"
  unfolding bus_ok_def unsubscribe_def
  using unsubscribe_loop_queues [of "subscribers bus" "queue c"]
  by (auto simp: unsubscribe_loop_distinct_keys unsubscribe_loop_distinct_queues)

lemma registered_unsubscribe:
  "registered bus q ts \<Longrightarrow> queue c \<noteq> q \<Longrightarrow> registered (unsubscribe bus c) q ts"
  unfolding registered_def unsubscribe_def
  using unsubscribe_loop_registered [of ts _ "subscribers bus" q "queue c"] by auto

lemma registered_lt: "bus_ok bus \<Longrightarrow> registered bus q ts \<Longrightarrow> q < bus_next bus"
  by (force simp: bus_ok_def registered_def)

lemma bus_step_queue:
  assumes "bus_ok bus" and "registered bus q ts" and "\<not> releases q op"
  shows "bus_ok (bus_step bus op) \<and> registered (bus_step bus op) q ts
     \<and> bus_items (bus_step bus op) q = bus_items bus q @ filter (accepts ts) (published [op])"
proof (cases op)
  case (Publish ev)
  from assms(2) obtain qs where m: "(ts, qs) \<in> set (subscribers bus)" "q \<in> set qs"
    by (auto simp: registered_def)
  from assms(1) have "distinct (concat (map snd (subscribers bus)))" by (simp add: bus_ok_def)
  from deliveries_registered [OF this m, of ev]
  have "bus_items (publish bus ev) q = bus_items bus q @ (if accepts ts ev then [ev] else [])"
    by (simp add: publish_def publish_loop_items)
  with assms Publish show ?thesis
    by (simp add: published_def publish_def bus_ok_def registered_def)
next
  case (Subscribe ts')
  from registered_lt [OF assms(1,2)] have "bus_items (snd (subscribe bus ts')) q = bus_items bus q"
    by (auto simp: subscribe_def Let_def split: option.splits)
  with Subscribe assms show ?thesis
    by (simp add: bus_ok_subscribe registered_subscribe published_def)
next
  case (Unsubscribe c)
  have "bus_items (unsubscribe bus c) = bus_items bus" by (simp add: unsubscribe_def)
  with Unsubscribe assms show ?thesis
    by (simp add: bus_ok_unsubscribe registered_unsubscribe published_def)
qed

lemma published_Cons: "published (op # ops) = published [op] @ published ops"
  by (simp add: published_def)

lemma bus_run_queue:
  "bus_ok bus \<Longrightarrow> registered bus q ts \<Longrightarrow> \<forall>op \<in> set ops. \<not> releases q op \<Longrightarrow>
     bus_items (foldl bus_step bus ops) q = bus_items bus q @ filter (accepts ts) (published ops)"
proof (induction ops arbitrary: bus)
  case Nil
  then show ?case by (simp add: published_def)
next
  case (Cons op ops)
  from Cons.prems have n: "\<not> releases q op" "\<forall>op \<in> set ops. \<not> releases q op" by simp_all
  note st = bus_step_queue [OF Cons.prems(1,2) n(1)]
  from Cons.IH [of "bus_step bus op"] st n(2)
  have "bus_items (foldl bus_step (bus_step bus op) ops) q
      = bus_items (bus_step bus op) q @ filter (accepts ts) (published ops)" by blast
  with st show ?case
    by (simp add: published_Cons [of op ops])
qed

section \<open>Properties of the event model\<close>




text \<open>
  C10.  Decoding a dictionary that has a recognized \<open>type\<close> and no \<open>payload\<close> key succeeds,
  and the event's payload is the empty dictionary.
\<close>

theorem from_dict_missing_payload:
  assumes "map_of kvs ''type'' = Some (PStr (EventType_value t))"
    and "map_of kvs ''payload'' = None"
  shows "from_dict (PDict kvs) = Inr \<lparr>event_class = C_BaseEvent, etype = t, payload = PDict []\<rparr>"
  using assms EventType_of_value [of t] by (simp add: dict_get_def)

theorem from_dict_missing_payload_witness:
  "map_of [(''type'', PStr (EventType_value STATE_DELTA))] ''type''
     = Some (PStr (EventType_value STATE_DELTA))
   \<and> map_of [(''type'', PStr (EventType_value STATE_DELTA))] ''payload'' = None
   \<and> from_dict (PDict [(''type'', PStr ''STATE_DELTA'')])
     = Inr \<lparr>event_class = C_BaseEvent, etype = STATE_DELTA, payload = PDict []\<rparr>"
  using from_dict_missing_payload [of "[(''type'', PStr (EventType_value STATE_DELTA))]" STATE_DELTA]
  by simp

section \<open>Properties of the transports\<close>

text \<open>
  C4 does not hold for a frame whose JSON is well formed and whose \<open>type\<close> is not a
  recognized event type: \<open>EventType(...)\<close> raises \<open>ValueError\<close>, which the handler for
  \<open>json.JSONDecodeError\<close> does not catch.  It leaves the generator, and the event of the
  next frame is never yielded.  The same happens on both transports.  A frame whose text
  is not JSON is skipped, and the event of the next frame is yielded.
\<close>

theorem unknown_kind_ends_stream:
  \<open>sse_receive_events example_limits
      [''data: {"type": "BOGUS", "payload": {}}'',
       '''',
       ''data: {"type": "RUN_STARTED", "payload": {"runId": "r1"}}'',
       '''']
     = ([], Some ValueError)
   \<and> ws_receive_events example_limits
      [''{"type": "BOGUS", "payload": {}}'',
       ''{"type": "RUN_STARTED", "payload": {"runId": "r1"}}'']
     = ([], Some ValueError)
   \<and> sse_receive_events example_limits
      [''data: {"type": "RUN_STARTED", "payl'',
       ''data: {"type": "RUN_STARTED", "payload": {"runId": "r1"}}'', '''']
     = ([\<lparr>event_class = C_BaseEvent, etype = RUN_STARTED, payload = PDict [(''runId'', PStr ''r1'')]\<rparr>], None)
   \<and> ws_receive_events example_limits
      [''{"type": "RUN_STARTED", "payl'',
       ''{"type": "RUN_STARTED", "payload": {"runId": "r1"}}'']
     = ([\<lparr>event_class = C_BaseEvent, etype = RUN_STARTED, payload = PDict [(''runId'', PStr ''r1'')]\<rparr>], None)\<close>
  by code_simp

section \<open>Properties of the event bus\<close>

text \<open>
  C1 does not hold for a subscriber that asks for a set of kinds: \<open>subscribe\<close> uses
  its argument as a dictionary key, and for a \<open>set\<close> the lookup raises \<open>TypeError\<close>.  No
  queue is registered, and a published event of the requested kind reaches no queue.
\<close>

theorem subscribe_with_set_raises:
  "fst (subscribe new_bus (PySet {ERROR})) = Inl TypeError
   \<and> subscribers (snd (subscribe new_bus (PySet {ERROR}))) = []
   \<and> bus_items (publish (snd (subscribe new_bus (PySet {ERROR}))) \<lparr>event_class = C_BaseEvent, etype = ERROR, payload = PDict []\<rparr>)
       = (\<lambda>_. [])"
  by (simp add: subscribe_def new_bus_def publish_def Let_def fun_eq_iff)

text \<open>
  With a filter that can be a dictionary key, \<open>None\<close> or a \<open>frozenset\<close>, the subscriber's
  queue is new, and after any run of publish, subscribe and unsubscribe operations that
  does not unsubscribe this subscriber, the queue holds exactly the published events that
  the filter accepts, in the order of publication; \<open>consume\<close> yields all of them.
\<close>

theorem bus_delivery:
  assumes "bus_ok bus" and "subscribe bus ts = (Inr c, bus')"
    and "\<forall>op \<in> set ops. \<not> releases (queue c) op"
  shows "bus_items (foldl bus_step bus' ops) (queue c) = filter (accepts ts) (published ops)
     \<and> consume c (bus_items (foldl bus_step bus' ops) (queue c)) = filter (accepts ts) (published ops)
     \<and> queue c \<notin> set (concat (map snd (subscribers bus)))"
proof -
  from assms(2) have b: "bus' = snd (subscribe bus ts)" by simp
  note n = subscribe_new_queue [OF assms(1,2)]
  have ok: "bus_ok bus'" unfolding b by (rule bus_ok_subscribe [OF assms(1)])
  from n have r: "registered bus' (queue c) ts" and e: "bus_items bus' (queue c) = []"
    and t: "event_types c = ts" by blast+
  from n have f: "queue c \<notin> set (concat (map snd (subscribers bus)))" by blast
  from bus_run_queue [OF ok r assms(3)] e
  have d: "bus_items (foldl bus_step bus' ops) (queue c) = filter (accepts ts) (published ops)"
    by simp
  have "consume c (bus_items (foldl bus_step bus' ops) (queue c)) = filter (accepts ts) (published ops)"
    unfolding d consume_def t by simp
  with d f show ?thesis by blast
qed

theorem bus_delivery_example:
  "bus_items
     (foldl bus_step (snd (subscribe new_bus (PyFrozenset {ERROR})))
        [Publish \<lparr>event_class = C_BaseEvent, etype = ERROR, payload = PDict [(''n'', PInt 1)]\<rparr>,
         Publish \<lparr>event_class = C_BaseEvent, etype = RUN_STARTED, payload = PDict []\<rparr>,
         Subscribe PyNone,
         Publish \<lparr>event_class = C_BaseEvent, etype = ERROR, payload = PDict [(''n'', PInt 2)]\<rparr>]) 0
   = [\<lparr>event_class = C_BaseEvent, etype = ERROR, payload = PDict [(''n'', PInt 1)]\<rparr>,
      \<lparr>event_class = C_BaseEvent, etype = ERROR, payload = PDict [(''n'', PInt 2)]\<rparr>]"
proof -
  have ok: "bus_ok new_bus"
    by (simp add: bus_ok_def new_bus_def)
  have s: "subscribe new_bus (PyFrozenset {ERROR})
      = (Inr \<lparr>queue = 0, event_types = PyFrozenset {ERROR}\<rparr>, snd (subscribe new_bus (PyFrozenset {ERROR})))"
    by (simp add: subscribe_def new_bus_def Let_def)
  from bus_delivery [OF ok s, of
      "[Publish \<lparr>event_class = C_BaseEvent, etype = ERROR, payload = PDict [(''n'', PInt 1)]\<rparr>,
        Publish \<lparr>event_class = C_BaseEvent, etype = RUN_STARTED, payload = PDict []\<rparr>,
        Subscribe PyNone,
        Publish \<lparr>event_class = C_BaseEvent, etype = ERROR, payload = PDict [(''n'', PInt 2)]\<rparr>]"]
  show ?thesis
    by (simp add: published_def)
qed

section \<open>Properties of the workflow endpoints\<close>

text \<open>
  C7.  A streaming subscription opened on an existing workflow, whatever the workflow's
  status, registers a new queue for the workflow, and when the handler returns that queue
  holds exactly one item: the \<open>connection_established\<close> event whose data carries the
  workflow's status at that moment.  Events emitted later are appended behind it.
\<close>

theorem subscribe_first_event:
  assumes "active_workflows s wid = Some w"
  shows "\<exists>s' qs. subscribe_to_workflow_events s now wid = (Inr (next_queue s), s')
           \<and> event_queues s' wid = Some qs \<and> next_queue s \<in> set qs
           \<and> queue_items s' (next_queue s) =
               [\<lparr>ev_workflow_id = wid, ev_event_type = ''connection_established'',
                 ev_timestamp = now, ev_data = PDict [(''status'', PStr (wf_status w))]\<rparr>]
           \<and> (\<forall>now' wid' ty d.
                 hd (queue_items (emit_event s' now' wid' ty d) (next_queue s)) =
                   \<lparr>ev_workflow_id = wid, ev_event_type = ''connection_established'',
                    ev_timestamp = now, ev_data = PDict [(''status'', PStr (wf_status w))]\<rparr>)"
  using assms
  by (auto simp: subscribe_to_workflow_events_def Let_def emit_event_def put_all_items
        split: option.splits)

theorem subscribe_first_event_witness:
  "get_workflow_status example_completed ''w1'' =
     Inr \<lparr>st_workflow_id = ''w1'', st_status = ''completed'', st_config = PDict [],
          st_result = Some (PDict [(''answer'', PStr ''hi'')]), st_error = None\<rparr>
   \<and> (\<exists>s' qs. subscribe_to_workflow_events example_completed 7 ''w1'' = (Inr 1, s')
           \<and> event_queues s' ''w1'' = Some qs \<and> 1 \<in> set qs
           \<and> queue_items s' 1 =
               [\<lparr>ev_workflow_id = ''w1'', ev_event_type = ''connection_established'',
                 ev_timestamp = 7, ev_data = PDict [(''status'', PStr ''completed'')]\<rparr>])"
proof -
  have w: "active_workflows example_completed ''w1'' =
      Some \<lparr>wf_status = ''completed'', wf_config = PDict [], wf_input = example_input,
            wf_result = Some (PDict [(''answer'', PStr ''hi'')]), wf_error = None\<rparr>"
    by (simp add: example_defs)
  have n: "next_queue example_completed = 1"
    by (simp add: example_defs)
  show ?thesis
    using subscribe_first_event [OF w, of 7] w n
    by (auto simp: get_workflow_status_def)
qed

text \<open>
  C9.  Emitting an event for a workflow id that is absent from \<open>event_queues\<close>, or whose
  queue list is empty, leaves the whole state as it was: the event is put on no queue and
  is kept nowhere.  A subscriber that attaches afterwards finds only the
  \<open>connection_established\<close> event in its queue.
\<close>

theorem emit_event_no_subscribers:
  assumes "event_queues s wid = None \<or> event_queues s wid = Some []"
  shows "emit_event s now wid event_type data = s
     \<and> (\<forall>w now'. active_workflows s wid = Some w \<longrightarrow>
          (\<exists>s'. subscribe_to_workflow_events (emit_event s now wid event_type data) now' wid
                   = (Inr (next_queue s), s')
              \<and> queue_items s' (next_queue s) =
                  [\<lparr>ev_workflow_id = wid, ev_event_type = ''connection_established'',
                    ev_timestamp = now', ev_data = PDict [(''status'', PStr (wf_status w))]\<rparr>]))"
proof -
  have e: "emit_event s now wid event_type data = s"
    using assms by (auto simp: emit_event_def)
  show ?thesis
    unfolding e by (simp add: subscribe_to_workflow_events_def Let_def)
qed

theorem emit_event_no_subscribers_witness:
  "event_queues example_started ''w1'' = Some []
   \<and> active_workflows example_started ''w1'' =
       Some \<lparr>wf_status = ''initializing'', wf_config = PDict [], wf_input = example_input,
             wf_result = None, wf_error = None\<rparr>
   \<and> emit_event example_started 3 ''w1'' ''status_update'' (PDict [(''status'', PStr ''running'')])
       = example_started
   \<and> (\<exists>s'. subscribe_to_workflow_events
               (emit_event example_started 3 ''w1'' ''status_update''
                  (PDict [(''status'', PStr ''running'')])) 4 ''w1'' = (Inr 0, s')
          \<and> queue_items s' 0 =
              [\<lparr>ev_workflow_id = ''w1'', ev_event_type = ''connection_established'',
                ev_timestamp = 4, ev_data = PDict [(''status'', PStr ''initializing'')]\<rparr>])"
proof -
  have q: "event_queues example_started ''w1'' = Some []"
    by (simp add: example_defs)
  have w: "active_workflows example_started ''w1'' =
       Some \<lparr>wf_status = ''initializing'', wf_config = PDict [], wf_input = example_input,
             wf_result = None, wf_error = None\<rparr>"
    by (simp add: example_defs)
  have n: "next_queue example_started = 0"
    by (simp add: example_defs)
  from q have h: "event_queues example_started ''w1'' = None \<or> event_queues example_started ''w1'' = Some []"
    by simp
  note t = emit_event_no_subscribers [OF h, of 3 "''status_update''" "PDict [(''status'', PStr ''running'')]"]
  show ?thesis
    using t [THEN conjunct1] t [THEN conjunct2, rule_format, OF w, of 4] q w n
    by simp
qed

text \<open>
  C5, as amended.  \<open>_handle_workflow_event\<close> and \<open>_emit_event\<close> do not read the workflow's
  status.  An engine-native event is appended to every subscriber queue of its workflow
  whatever the status is, also after the workflow has reached \<open>error\<close>, and the workflow
  data are left as they were.
\<close>

theorem handle_workflow_event_forwards:
  assumes "event_queues s wid = Some qs" and "q \<in> set qs" and "distinct qs"
  shows "queue_items (handle_workflow_event s now wid e) q =
           queue_items s q @
             [\<lparr>ev_workflow_id = wid,
               ev_event_type = (case ee_type e of None \<Rightarrow> ''unknown'' | Some t \<Rightarrow> t),
               ev_timestamp = now, ev_data = AgentEventResponse_dict wid e\<rparr>]
         \<and> active_workflows (handle_workflow_event s now wid e) = active_workflows s"
  using assms by (simp add: handle_workflow_event_def emit_event_def put_all_member)

theorem handle_workflow_event_forwards_witness:
  "event_queues example_error ''w1'' = Some [0] \<and> 0 \<in> set [0::nat] \<and> distinct [0::nat]
   \<and> get_workflow_status example_error ''w1'' =
       Inr \<lparr>st_workflow_id = ''w1'', st_status = ''error'', st_config = PDict [],
            st_result = None, st_error = Some ''boom''\<rparr>
   \<and> queue_items
       (handle_workflow_event example_error 3 ''w1''
          \<lparr>ee_type = Some ''TEXT_MESSAGE_CONTENT'', ee_timestamp = None, ee_data = None\<rparr>) 0
     = queue_items example_error 0 @
        [\<lparr>ev_workflow_id = ''w1'', ev_event_type = ''TEXT_MESSAGE_CONTENT'', ev_timestamp = 3,
          ev_data = AgentEventResponse_dict ''w1''
             \<lparr>ee_type = Some ''TEXT_MESSAGE_CONTENT'', ee_timestamp = None, ee_data = None\<rparr>\<rparr>]"
proof -
  have q: "event_queues example_error ''w1'' = Some [0]"
    by (simp add: example_defs)
  have g: "get_workflow_status example_error ''w1'' =
       Inr \<lparr>st_workflow_id = ''w1'', st_status = ''error'', st_config = PDict [],
            st_result = None, st_error = Some ''boom''\<rparr>"
    by (simp add: example_defs get_workflow_status_def)
  show ?thesis
    using handle_workflow_event_forwards [OF q, of 0 3
        "\<lparr>ee_type = Some ''TEXT_MESSAGE_CONTENT'', ee_timestamp = None, ee_data = None\<rparr>"] q g
    by simp
qed

text \<open>
  C5 as stated fails.  The workflow \<open>w1\<close> has failed with the message \<open>boom\<close> and its status
  is \<open>error\<close>; an engine event handled afterwards is appended to the subscriber's queue.
\<close>

theorem late_engine_event_counterexample:
  "get_workflow_status example_error ''w1'' =
     Inr \<lparr>st_workflow_id = ''w1'', st_status = ''error'', st_config = PDict [],
          st_result = None, st_error = Some ''boom''\<rparr>
   \<and> queue_items
       (handle_workflow_event example_error 3 ''w1''
          \<lparr>ee_type = Some ''TEXT_MESSAGE_CONTENT'', ee_timestamp = None, ee_data = None\<rparr>) 0
     = queue_items example_error 0 @
       [\<lparr>ev_workflow_id = ''w1'', ev_event_type = ''TEXT_MESSAGE_CONTENT'', ev_timestamp = 3,
         ev_data = PDict [(''workflow_id'', PUuid ''w1''),
                          (''event_type'', PStr ''TEXT_MESSAGE_CONTENT''),
                          (''timestamp'', PNone), (''data'', PDict [])]\<rparr>]"
  by (simp add: example_defs get_workflow_status_def handle_workflow_event_def
        AgentEventResponse_dict_def)

text \<open>
  C6, as amended.  \<open>cancel_workflow\<close> does not read the workflow's status.  A request for an
  unknown workflow fails with status code 404 and changes nothing.  For every known
  workflow, terminal or not, the engine's cancel operation is invoked.  When it returns,
  the status is set to \<open>cancelled\<close>, a \<open>cancelled\<close> event is appended to every subscriber
  queue and the request succeeds.  When it raises, the request fails with status code 500
  and the engine's message, and neither the workflow data nor the queues change.
\<close>

theorem cancel_workflow_any_status:
  "case active_workflows s wid of
     None \<Rightarrow>
       cancel_workflow s now wid outcome =
         (Inl (HTTPException 404 (''Workflow '' @ wid @ '' not found'')), s)
   | Some w \<Rightarrow>
       engine_calls (snd (cancel_workflow s now wid outcome)) = engine_calls s @ [(wid, Cancel)]
       \<and> (case outcome of
            None \<Rightarrow>
              fst (cancel_workflow s now wid outcome) =
                Inr \<lparr>resp_workflow_id = wid, resp_status = ''cancelled'',
                     resp_message = ''Workflow cancelled successfully''\<rparr>
              \<and> active_workflows (snd (cancel_workflow s now wid outcome)) =
                  (active_workflows s)(wid \<mapsto> w\<lparr>wf_status := ''cancelled''\<rparr>)
              \<and> (\<forall>qs q. event_queues s wid = Some qs \<and> q \<in> set qs \<and> distinct qs \<longrightarrow>
                    queue_items (snd (cancel_workflow s now wid outcome)) q =
                      queue_items s q @
                        [\<lparr>ev_workflow_id = wid, ev_event_type = ''cancelled'', ev_timestamp = now,
                          ev_data = PDict [(''status'', PStr ''cancelled'')]\<rparr>])
          | Some msg \<Rightarrow>
              fst (cancel_workflow s now wid outcome) = Inl (HTTPException 500 msg)
              \<and> active_workflows (snd (cancel_workflow s now wid outcome)) = active_workflows s
              \<and> queue_items (snd (cancel_workflow s now wid outcome)) = queue_items s)"
  by (cases "active_workflows s wid"; cases outcome)
     (auto simp: cancel_workflow_def not_found_def emit_event_def put_all_member Let_def
        split: option.splits)

theorem cancel_workflow_any_status_witness:
  "active_workflows example_cancelled ''w1'' =
     Some \<lparr>wf_status = ''cancelled'', wf_config = PDict [], wf_input = example_input,
           wf_result = None, wf_error = None\<rparr>
   \<and> event_queues example_cancelled ''w1'' = Some [0] \<and> 0 \<in> set [0::nat] \<and> distinct [0::nat]
   \<and> engine_calls (snd (cancel_workflow example_cancelled 3 ''w1'' None)) =
       engine_calls example_cancelled @ [(''w1'', Cancel)]
   \<and> fst (cancel_workflow example_cancelled 3 ''w1'' None) =
       Inr \<lparr>resp_workflow_id = ''w1'', resp_status = ''cancelled'',
            resp_message = ''Workflow cancelled successfully''\<rparr>
   \<and> queue_items (snd (cancel_workflow example_cancelled 3 ''w1'' None)) 0 =
       queue_items example_cancelled 0 @
         [\<lparr>ev_workflow_id = ''w1'', ev_event_type = ''cancelled'', ev_timestamp = 3,
           ev_data = PDict [(''status'', PStr ''cancelled'')]\<rparr>]
   \<and> fst (cancel_workflow example_cancelled 3 ''w1'' (Some ''engine down'')) =
       Inl (HTTPException 500 ''engine down'')
   \<and> active_workflows (snd (cancel_workflow example_cancelled 3 ''w1'' (Some ''engine down''))) =
       active_workflows example_cancelled
   \<and> active_workflows example_cancelled ''w2'' = None
   \<and> cancel_workflow example_cancelled 3 ''w2'' None =
       (Inl (HTTPException 404 ''Workflow w2 not found''), example_cancelled)"
proof -
  have w: "active_workflows example_cancelled ''w1'' =
     Some \<lparr>wf_status = ''cancelled'', wf_config = PDict [], wf_input = example_input,
           wf_result = None, wf_error = None\<rparr>"
    by (simp add: example_defs)
  have u: "active_workflows example_cancelled ''w2'' = None"
    by (simp add: example_defs)
  have q: "event_queues example_cancelled ''w1'' = Some [0]"
    by (simp add: example_defs)
  note a = cancel_workflow_any_status [of example_cancelled 3 "''w1''" None, unfolded w, simplified]
  note b = cancel_workflow_any_status [of example_cancelled 3 "''w1''" "Some ''engine down''",
      unfolded w, simplified]
  note c = cancel_workflow_any_status [of example_cancelled 3 "''w2''" None, unfolded u, simplified]
  from a have a3: "queue_items (snd (cancel_workflow example_cancelled 3 ''w1'' None)) 0 =
       queue_items example_cancelled 0 @
         [\<lparr>ev_workflow_id = ''w1'', ev_event_type = ''cancelled'', ev_timestamp = 3,
           ev_data = PDict [(''status'', PStr ''cancelled'')]\<rparr>]"
    using q by simp
  show ?thesis
    using a b c a3 w u q by simp
qed

text \<open>
  C6 as stated fails.  A second cancel request on the workflow \<open>w1\<close>, already \<open>cancelled\<close>,
  invokes the engine's cancel operation again, succeeds and emits a second \<open>cancelled\<close>
  event.
\<close>

theorem cancel_twice_counterexample:
  "get_workflow_status example_cancelled ''w1'' =
     Inr \<lparr>st_workflow_id = ''w1'', st_status = ''cancelled'', st_config = PDict [],
          st_result = None, st_error = None\<rparr>
   \<and> fst (cancel_workflow example_cancelled 3 ''w1'' None) =
       Inr \<lparr>resp_workflow_id = ''w1'', resp_status = ''cancelled'',
            resp_message = ''Workflow cancelled successfully''\<rparr>
   \<and> engine_calls (snd (cancel_workflow example_cancelled 3 ''w1'' None)) =
       engine_calls example_cancelled @ [(''w1'', Cancel)]
   \<and> queue_items (snd (cancel_workflow example_cancelled 3 ''w1'' None)) 0 =
       queue_items example_cancelled 0 @
         [\<lparr>ev_workflow_id = ''w1'', ev_event_type = ''cancelled'', ev_timestamp = 3,
           ev_data = PDict [(''status'', PStr ''cancelled'')]\<rparr>]"
  by (simp add: example_defs get_workflow_status_def)

text \<open>
  C2, as amended.  For a known workflow whose status is neither \<open>running\<close> nor
  \<open>waiting_for_input\<close>, an action submission is rejected with status code 400, and the
  state is unchanged: the engine is not called, no event is emitted, status, result and
  error stay as they were.  A feedback submission for a known workflow is not checked
  against the status: whatever the status is, the engine's \<open>submit_feedback\<close> is called;
  when it returns, the request succeeds and a \<open>feedback_submitted\<close> event is appended to
  every subscriber queue; when it raises, the request fails with status code 500 and no
  event is emitted.  In both cases the workflow's status, result and error are unchanged.
\<close>

theorem action_rejected_feedback_forwarded:
  assumes "active_workflows s wid = Some w"
  shows "(wf_status w \<noteq> ''running'' \<and> wf_status w \<noteq> ''waiting_for_input'' \<longrightarrow>
            submit_agent_action s now wid ty d outcome =
              (Inl (HTTPException 400
                 (''Workflow is in '' @ wf_status w @ '' state and cannot receive actions'')), s))
     \<and> engine_calls (snd (submit_agent_feedback s now wid ty d outcome)) =
         engine_calls s @ [(wid, SubmitFeedback ty d)]
     \<and> active_workflows (snd (submit_agent_feedback s now wid ty d outcome)) = active_workflows s
     \<and> (case outcome of
          None \<Rightarrow>
            fst (submit_agent_feedback s now wid ty d outcome) =
              Inr \<lparr>resp_workflow_id = wid, resp_status = wf_status w,
                   resp_message = ''Feedback submitted successfully''\<rparr>
            \<and> (\<forall>qs q. event_queues s wid = Some qs \<and> q \<in> set qs \<and> distinct qs \<longrightarrow>
                  queue_items (snd (submit_agent_feedback s now wid ty d outcome)) q =
                    queue_items s q @
                      [\<lparr>ev_workflow_id = wid, ev_event_type = ''feedback_submitted'',
                        ev_timestamp = now,
                        ev_data = PDict [(''feedback_type'', PStr ty), (''feedback_data'', d)]\<rparr>])
        | Some msg \<Rightarrow>
            fst (submit_agent_feedback s now wid ty d outcome) = Inl (HTTPException 500 msg)
            \<and> queue_items (snd (submit_agent_feedback s now wid ty d outcome)) = queue_items s)"
  using assms
  by (cases outcome) (auto simp: submit_agent_action_def submit_agent_feedback_def emit_event_def
        put_all_member Let_def split: option.splits)

theorem action_rejected_feedback_forwarded_witness:
  "active_workflows example_completed ''w1'' =
     Some \<lparr>wf_status = ''completed'', wf_config = PDict [], wf_input = example_input,
           wf_result = Some (PDict [(''answer'', PStr ''hi'')]), wf_error = None\<rparr>
   \<and> ''completed'' \<noteq> ''running'' \<and> ''completed'' \<noteq> ''waiting_for_input''
   \<and> event_queues example_completed ''w1'' = Some [0] \<and> 0 \<in> set [0::nat] \<and> distinct [0::nat]
   \<and> submit_agent_action example_completed 3 ''w1'' ''rating'' (PDict []) None =
       (Inl (HTTPException 400 ''Workflow is in completed state and cannot receive actions''),
        example_completed)
   \<and> fst (submit_agent_feedback example_completed 3 ''w1'' ''rating'' (PDict []) None) =
       Inr \<lparr>resp_workflow_id = ''w1'', resp_status = ''completed'',
            resp_message = ''Feedback submitted successfully''\<rparr>
   \<and> queue_items (snd (submit_agent_feedback example_completed 3 ''w1'' ''rating'' (PDict []) None)) 0 =
       queue_items example_completed 0 @
         [\<lparr>ev_workflow_id = ''w1'', ev_event_type = ''feedback_submitted'', ev_timestamp = 3,
           ev_data = PDict [(''feedback_type'', PStr ''rating''), (''feedback_data'', PDict [])]\<rparr>]
   \<and> fst (submit_agent_feedback example_completed 3 ''w1'' ''rating'' (PDict []) (Some ''engine down'')) =
       Inl (HTTPException 500 ''engine down'')
   \<and> active_workflows example_running ''w1'' =
       Some \<lparr>wf_status = ''running'', wf_config = PDict [], wf_input = example_input,
             wf_result = None, wf_error = None\<rparr>
   \<and> event_queues example_running ''w1'' = Some [0]
   \<and> fst (submit_agent_feedback example_running 3 ''w1'' ''rating'' (PDict []) None) =
       Inr \<lparr>resp_workflow_id = ''w1'', resp_status = ''running'',
            resp_message = ''Feedback submitted successfully''\<rparr>
   \<and> engine_calls (snd (submit_agent_feedback example_running 3 ''w1'' ''rating'' (PDict []) None)) =
       engine_calls example_running @ [(''w1'', SubmitFeedback ''rating'' (PDict []))]
   \<and> queue_items (snd (submit_agent_feedback example_running 3 ''w1'' ''rating'' (PDict []) None)) 0 =
       queue_items example_running 0 @
         [\<lparr>ev_workflow_id = ''w1'', ev_event_type = ''feedback_submitted'', ev_timestamp = 3,
           ev_data = PDict [(''feedback_type'', PStr ''rating''), (''feedback_data'', PDict [])]\<rparr>]"
proof -
  have w: "active_workflows example_completed ''w1'' =
     Some \<lparr>wf_status = ''completed'', wf_config = PDict [], wf_input = example_input,
           wf_result = Some (PDict [(''answer'', PStr ''hi'')]), wf_error = None\<rparr>"
    by (simp add: example_defs)
  have q: "event_queues example_completed ''w1'' = Some [0]"
    by (simp add: example_defs)
  have w': "active_workflows example_running ''w1'' =
     Some \<lparr>wf_status = ''running'', wf_config = PDict [], wf_input = example_input,
           wf_result = None, wf_error = None\<rparr>"
    by (simp add: example_defs)
  have q': "event_queues example_running ''w1'' = Some [0]"
    by (simp add: example_defs)
  note a = action_rejected_feedback_forwarded [OF w, of 3 "''rating''" "PDict []" None, simplified]
  note b = action_rejected_feedback_forwarded [OF w, of 3 "''rating''" "PDict []" "Some ''engine down''", simplified]
  note c = action_rejected_feedback_forwarded [OF w', of 3 "''rating''" "PDict []" None, simplified]
  from a have a3: "queue_items (snd (submit_agent_feedback example_completed 3 ''w1'' ''rating'' (PDict []) None)) 0 =
       queue_items example_completed 0 @
         [\<lparr>ev_workflow_id = ''w1'', ev_event_type = ''feedback_submitted'', ev_timestamp = 3,
           ev_data = PDict [(''feedback_type'', PStr ''rating''), (''feedback_data'', PDict [])]\<rparr>]"
    using q by simp
  from c have c3: "queue_items (snd (submit_agent_feedback example_running 3 ''w1'' ''rating'' (PDict []) None)) 0 =
       queue_items example_running 0 @
         [\<lparr>ev_workflow_id = ''w1'', ev_event_type = ''feedback_submitted'', ev_timestamp = 3,
           ev_data = PDict [(''feedback_type'', PStr ''rating''), (''feedback_data'', PDict [])]\<rparr>]"
    using q' by simp
  show ?thesis
    using a b c a3 c3 w q w' q' by simp
qed

text \<open>
  C2 as stated fails.  A feedback submission for the workflow \<open>w1\<close>, which is \<open>completed\<close>,
  succeeds and emits a \<open>feedback_submitted\<close> event to the subscriber.
\<close>

theorem feedback_after_completion_counterexample:
  "get_workflow_status example_completed ''w1'' =
     Inr \<lparr>st_workflow_id = ''w1'', st_status = ''completed'', st_config = PDict [],
          st_result = Some (PDict [(''answer'', PStr ''hi'')]), st_error = None\<rparr>
   \<and> fst (submit_agent_feedback example_completed 3 ''w1'' ''rating'' (PDict [(''stars'', PInt 5)]) None) =
       Inr \<lparr>resp_workflow_id = ''w1'', resp_status = ''completed'',
            resp_message = ''Feedback submitted successfully''\<rparr>
   \<and> queue_items
       (snd (submit_agent_feedback example_completed 3 ''w1'' ''rating'' (PDict [(''stars'', PInt 5)]) None)) 0 =
       queue_items example_completed 0 @
         [\<lparr>ev_workflow_id = ''w1'', ev_event_type = ''feedback_submitted'', ev_timestamp = 3,
           ev_data = PDict [(''feedback_type'', PStr ''rating''),
                            (''feedback_data'', PDict [(''stars'', PInt 5)])]\<rparr>]"
  by (simp add: example_defs get_workflow_status_def submit_agent_feedback_def)

text \<open>
  C8.  Whenever a run of the streaming generator leaves its loop, by the client's
  disconnect, by an exception or by being closed at the \<open>yield\<close>, and whatever the other
  tasks did meanwhile, the subscriber's queue is no longer in the workflow's list of
  \<open>event_queues\<close>.  A disconnect, a close or a raised exception always ends the run.  When
  no other task changes the registry during the run, the registry at the end is the
  registry at the start with that one queue removed from the workflow's list, once: every
  other subscriber stays registered.
\<close>

theorem event_generator_releases_queue:
  assumes "registry_ok s" and "event_generator L s wid q ticks = (chunks, ex, s')"
  shows "(ex \<noteq> None \<longrightarrow> q \<notin> set (queues_of s' wid))
     \<and> ((\<exists>t \<in> set ticks. t \<in> exit_signals) \<longrightarrow> ex \<noteq> None)
     \<and> ((\<forall>t \<in> set ticks. is_pass t) \<and> ex \<noteq> None \<longrightarrow>
          event_queues s' = (event_queues s)(wid := map_option (remove1 q) (event_queues s wid)))
     \<and> registry_ok s'"
proof -
  have a: "registry_ok s' \<and> (ex \<noteq> None \<longrightarrow> q \<notin> set (queues_of s' wid))"
    using event_generator_ok [OF assms] .
  have b: "(\<exists>t \<in> set ticks. t \<in> exit_signals) \<longrightarrow> ex \<noteq> None"
    using event_generator_exits [of ticks L s wid q] assms(2) by simp
  have c: "(\<forall>t \<in> set ticks. is_pass t) \<and> ex \<noteq> None \<longrightarrow>
          event_queues s' = (event_queues s)(wid := map_option (remove1 q) (event_queues s wid))"
    using event_generator_alone [of ticks L s wid q chunks _ s'] assms(2) by auto
  from a b c show ?thesis by simp
qed

theorem event_generator_releases_queue_witness:
  "queues_of example_two_subscribers ''w1'' = [0, 1]
   \<and> fst (snd (event_generator example_limits example_two_subscribers ''w1'' 0
                 [Pass Connected, Pass Connected, Pass Connected, Pass Disconnected]))
       = Some LoopBreak
   \<and> Pass Disconnected \<in> exit_signals
   \<and> is_pass (Pass Connected) \<and> is_pass (Pass Disconnected)
   \<and> queues_of (snd (snd (event_generator example_limits example_two_subscribers ''w1'' 0
                 [Pass Connected, Pass Connected, Pass Connected, Pass Disconnected]))) ''w1'' = [1]"
proof -
  let ?ticks = "[Pass Connected, Pass Connected, Pass Connected, Pass Disconnected]"
  let ?r = "event_generator example_limits example_two_subscribers ''w1'' 0 ?ticks"
  have q: "event_queues example_two_subscribers ''w1'' = Some [0, 1]"
    by (simp add: example_two_subscribers_def example_defs)
  have e: "fst (snd ?r) = Some LoopBreak"
    by (simp add: example_two_subscribers_def example_defs generator_pass_def json_dumps_def
          event_dict_def release_queue_def example_limits_def digits_ok_def str_nat.simps)
  have r: "?r = (fst ?r, fst (snd ?r), snd (snd ?r))"
    by simp
  note t = event_generator_releases_queue [OF registry_ok_example r]
  from t e q have "event_queues (snd (snd ?r)) ''w1'' = Some [1]"
    by simp
  with e q show ?thesis
    by (simp add: queues_of_def exit_signals_def)
qed

end
